theory Spec2Isabelle
  imports Main
begin

section \<open>Values of the query string\<close>

text \<open>
  The raw parameters are the object the HTTP layer parses from the query string. Its
  values are strings, arrays and nested objects (\<^verbatim>\<open>price[gte]=50\<close> gives
  \<^verbatim>\<open>{price: {gte: "50"}}\<close>). An object is the list of its own properties in
  enumeration order. A \<^typ>\<open>string\<close> is a list of code units below 256.
\<close>

datatype jsval = JStr string | JArr "jsval list" | JObj "(string \<times> jsval) list"

type_synonym props = "(string \<times> jsval) list"

datatype error = TypeError | SyntaxError

subsection \<open>Strings: split and join\<close>

text \<open>\<^verbatim>\<open>s.split(c)\<close> for a separator of one character: never the empty array.\<close>

fun split :: "char \<Rightarrow> string \<Rightarrow> string list" where
  "split sep [] = [[]]"
| "split sep (c # cs) =
     (if c = sep then [] # split sep cs
      else (case split sep cs of p # ps \<Rightarrow> (c # p) # ps | [] \<Rightarrow> [[c]]))"

text \<open>\<^verbatim>\<open>parts.join(sep)\<close>.\<close>

fun join :: "string \<Rightarrow> string list \<Rightarrow> string" where
  "join sep [] = []"
| "join sep [p] = p"
| "join sep (p # q # ps) = p @ sep @ join sep (q # ps)"

section \<open>The query handle\<close>

text \<open>
  Modelled from the spec: the queryable handle of the storage layer (the Mongoose query,
  which is not part of the repository). It records what has been applied to it:
  \<^verbatim>\<open>find\<close> narrows by one more predicate, and for sort, projection, skip and
  limit the last write wins.
\<close>

record handle =
  conditions :: "jsval list"
  sort_spec :: "string option"
  projection :: "string option"
  skip_count :: "int option"
  limit_count :: "int option"

definition h_find :: "jsval \<Rightarrow> handle \<Rightarrow> handle" where
  "h_find p q = q\<lparr>conditions := conditions q @ [p]\<rparr>"

definition h_sort :: "string \<Rightarrow> handle \<Rightarrow> handle" where
  "h_sort s q = q\<lparr>sort_spec := Some s\<rparr>"

definition h_select :: "string \<Rightarrow> handle \<Rightarrow> handle" where
  "h_select s q = q\<lparr>projection := Some s\<rparr>"

definition h_skip :: "int \<Rightarrow> handle \<Rightarrow> handle" where
  "h_skip n q = q\<lparr>skip_count := Some n\<rparr>"

definition h_limit :: "int \<Rightarrow> handle \<Rightarrow> handle" where
  "h_limit n q = q\<lparr>limit_count := Some n\<rparr>"

text \<open>
  Modelled from the spec: how the handle reads a sort or projection string, a
  space-delimited list of paths, a path prefixed with \<^verbatim>\<open>-\<close> being descending
  (sort) or excluded (projection).
\<close>

definition paths :: "string \<Rightarrow> string list" where
  "paths s = filter (\<lambda>p. p \<noteq> []) (split (CHR '' '') s)"

definition negated :: "string \<Rightarrow> bool" where
  "negated p = (case p of [] \<Rightarrow> False | c # _ \<Rightarrow> c = CHR ''-'')"


section \<open>The builder\<close>

text \<open>
  \<^verbatim>\<open>this.queryStr\<close> is a reference to the object the caller passed in; objects live
  in a heap, a list indexed by address. The state is the heap and the builder's two fields.
\<close>

type_synonym addr = nat
type_synonym heap = "props list"

record builder =
  query :: handle
  queryStr :: addr

type_synonym state = "heap \<times> builder"

text \<open>\<^verbatim>\<open>new APIFilters(query, queryStr)\<close>\<close>

definition constructor :: "handle \<Rightarrow> addr \<Rightarrow> builder" where
  "constructor q a = \<lparr>query = q, queryStr = a\<rparr>"

text \<open>\<^verbatim>\<open>obj[key]\<close> on an object with no inherited property of that name.\<close>

definition get_prop :: "props \<Rightarrow> string \<Rightarrow> jsval option" where
  "get_prop obj k = map_of obj k"

text \<open>\<^verbatim>\<open>delete obj[key]\<close>\<close>

definition delete_prop :: "props \<Rightarrow> string \<Rightarrow> props" where
  "delete_prop obj k = filter (\<lambda>kv. fst kv \<noteq> k) obj"

text \<open>The parameters the builder reads: the object \<^verbatim>\<open>this.queryStr\<close> refers to.\<close>

definition params :: "state \<Rightarrow> props" where
  "params s = fst s ! queryStr (snd s)"

text \<open>The truthiness of a property read: absent and the empty string are falsy.\<close>

definition truthy :: "jsval option \<Rightarrow> bool" where
  "truthy v = (case v of None \<Rightarrow> False | Some (JStr s) \<Rightarrow> s \<noteq> [] | Some _ \<Rightarrow> True)"

text \<open>
  \<^verbatim>\<open>v.split(c).join(' ')\<close>: only a string has \<^verbatim>\<open>split\<close>; on an array or an
  object the call raises a TypeError.
\<close>

definition split_join :: "char \<Rightarrow> jsval \<Rightarrow> error + string" where
  "split_join c v = (case v of JStr s \<Rightarrow> Inr (join '' '' (split c s)) | _ \<Rightarrow> Inl TypeError)"

text \<open>
  Every method returns the outcome (\<open>None\<close>: it returned \<^verbatim>\<open>this\<close>; \<open>Some e\<close>:
  it threw \<open>e\<close>) and the state it leaves.
\<close>

definition sort_api :: "state \<Rightarrow> error option \<times> state" where
  "sort_api s =
     (let (h, b) = s in
      if truthy (get_prop (h ! queryStr b) ''sort'') then
        (case split_join (CHR '','') (the (get_prop (h ! queryStr b) ''sort'')) of
           Inl e \<Rightarrow> (Some e, s)
         | Inr sortBy \<Rightarrow> (None, (h, b\<lparr>query := h_sort sortBy (query b)\<rparr>)))
      else (None, (h, b\<lparr>query := h_sort ''-postingDate'' (query b)\<rparr>)))"

definition limitFields :: "state \<Rightarrow> error option \<times> state" where
  "limitFields s =
     (let (h, b) = s in
      if truthy (get_prop (h ! queryStr b) ''fields'') then
        (case split_join (CHR '','') (the (get_prop (h ! queryStr b) ''fields'')) of
           Inl e \<Rightarrow> (Some e, s)
         | Inr fields' \<Rightarrow> (None, (h, b\<lparr>query := h_select fields' (query b)\<rparr>)))
      else (None, (h, b\<lparr>query := h_select ''-__v'' (query b)\<rparr>)))"

text \<open>The predicate \<^verbatim>\<open>{$text: {$search: "\"" + qu + "\""}}\<close>.\<close>

definition text_search :: "string \<Rightarrow> jsval" where
  "text_search qu = JObj [(''$text'', JObj [(''$search'', JStr (CHR 0x22 # qu @ [CHR 0x22]))])]"

definition searchByQuery :: "state \<Rightarrow> error option \<times> state" where
  "searchByQuery s =
     (let (h, b) = s in
      if truthy (get_prop (h ! queryStr b) ''q'') then
        (case split_join (CHR ''-'') (the (get_prop (h ! queryStr b) ''q'')) of
           Inl e \<Rightarrow> (Some e, s)
         | Inr qu \<Rightarrow> (None, (h, b\<lparr>query := h_find (text_search qu) (query b)\<rparr>)))
      else (None, s))"

subsection \<open>Pagination\<close>

text \<open>
  \<^verbatim>\<open>parseInt(v, 10)\<close> first converts \<open>v\<close> to a string. An array gives its
  elements' strings joined by commas; an object gives \<^verbatim>\<open>[object Object]\<close>, unless
  it has an own property \<^verbatim>\<open>toString\<close>, which is not callable and makes the
  conversion raise a TypeError; an absent property is \<^verbatim>\<open>undefined\<close>.
\<close>

fun js_to_string :: "jsval \<Rightarrow> error + string"
  and js_to_strings :: "jsval list \<Rightarrow> error + string list" where
  "js_to_string (JStr s) = Inr s"
| "js_to_string (JArr xs) =
     (case js_to_strings xs of Inl e \<Rightarrow> Inl e | Inr ps \<Rightarrow> Inr (join '','' ps))"
| "js_to_string (JObj kvs) =
     (if ''toString'' \<in> set (map fst kvs) then Inl TypeError else Inr ''[object Object]'')"
| "js_to_strings [] = Inr []"
| "js_to_strings (x # xs) =
     (case js_to_string x of Inl e \<Rightarrow> Inl e
      | Inr p \<Rightarrow> (case js_to_strings xs of Inl e \<Rightarrow> Inl e | Inr ps \<Rightarrow> Inr (p # ps)))"

definition to_string_arg :: "jsval option \<Rightarrow> error + string" where
  "to_string_arg v = (case v of None \<Rightarrow> Inr ''undefined'' | Some x \<Rightarrow> js_to_string x)"

text \<open>The white space \<^verbatim>\<open>parseInt\<close> skips, among the code units below 256.\<close>

definition is_js_space :: "char \<Rightarrow> bool" where
  "is_js_space c = (of_char c \<in> {9, 10, 11, 12, 13, 32, 160 :: nat})"

definition is_digit :: "char \<Rightarrow> bool" where
  "is_digit c = (48 \<le> (of_char c :: nat) \<and> (of_char c :: nat) \<le> 57)"

definition digits_value :: "string \<Rightarrow> int" where
  "digits_value ds = foldl (\<lambda>a d. 10 * a + (int (of_char d) - 48)) 0 ds"

text \<open>
  \<^verbatim>\<open>parseInt(str, 10)\<close> on a string: leading white space, an optional sign, the
  longest run of decimal digits; \<open>None\<close> is NaN. A JavaScript number is a double: the
  integer returned here is the number the code computes as long as it stays within
  \<open>\<plusminus> 2^53\<close>.
\<close>

definition parseInt10 :: "string \<Rightarrow> int option" where
  "parseInt10 str =
     (let s = dropWhile is_js_space str;
          neg = (s \<noteq> [] \<and> hd s = CHR ''-'');
          s' = (if s \<noteq> [] \<and> (hd s = CHR ''-'' \<or> hd s = CHR ''+'') then tl s else s);
          ds = takeWhile is_digit s'
      in if ds = [] then None
         else Some (if neg then - digits_value ds else digits_value ds))"

text \<open>\<^verbatim>\<open>parseInt(v, 10) || d\<close>: NaN and 0 are falsy and give the default.\<close>

definition or_default :: "int option \<Rightarrow> int \<Rightarrow> int" where
  "or_default n d = (case n of None \<Rightarrow> d | Some i \<Rightarrow> if i = 0 then d else i)"

definition parse_param :: "jsval option \<Rightarrow> int \<Rightarrow> error + int" where
  "parse_param v d =
     (case to_string_arg v of Inl e \<Rightarrow> Inl e | Inr str \<Rightarrow> Inr (or_default (parseInt10 str) d))"

definition pagination :: "state \<Rightarrow> error option \<times> state" where
  "pagination s =
     (let (h, b) = s in
      case parse_param (get_prop (h ! queryStr b) ''page'') 1 of
        Inl e \<Rightarrow> (Some e, s)
      | Inr page \<Rightarrow>
         (case parse_param (get_prop (h ! queryStr b) ''limit'') 10 of
            Inl e \<Rightarrow> (Some e, s)
          | Inr limit \<Rightarrow>
             (let skipResults = (page - 1) * limit
              in (None, (h, b\<lparr>query := h_limit limit (h_skip skipResults (query b))\<rparr>)))))"

section \<open>The field filter\<close>

subsection \<open>JSON.stringify\<close>

text \<open>The lower-case hexadecimal digit of a number below 16.\<close>

definition hex_digit :: "nat \<Rightarrow> char" where
  "hex_digit n = (if n < 10 then char_of (48 + n) else char_of (87 + n))"

text \<open>
  The quotation mark (0x22) and the backslash (0x5C) are escaped with a backslash, the
  control characters by their short form or as \<^verbatim>\<open>\u00XX\<close>.
\<close>

definition escape_char :: "char \<Rightarrow> string" where
  "escape_char c =
     (if c = CHR 0x22 then [CHR 0x5C, CHR 0x22]
      else if c = CHR 0x5C then [CHR 0x5C, CHR 0x5C]
      else if c = CHR 0x08 then [CHR 0x5C, CHR ''b'']
      else if c = CHR 0x0C then [CHR 0x5C, CHR ''f'']
      else if c = CHR 0x0A then [CHR 0x5C, CHR ''n'']
      else if c = CHR 0x0D then [CHR 0x5C, CHR ''r'']
      else if c = CHR 0x09 then [CHR 0x5C, CHR ''t'']
      else if (of_char c :: nat) < 32 then
        [CHR 0x5C, CHR ''u'', CHR ''0'', CHR ''0'',
         hex_digit (of_char c div 16), hex_digit (of_char c mod 16)]
      else [c])"

definition escape :: "string \<Rightarrow> string" where
  "escape s = concat (map escape_char s)"

definition quote :: "string \<Rightarrow> string" where
  "quote s = CHR 0x22 # escape s @ [CHR 0x22]"

fun stringify :: "jsval \<Rightarrow> string"
  and stringify_elements :: "jsval list \<Rightarrow> string"
  and stringify_members :: "props \<Rightarrow> string" where
  "stringify (JStr s) = quote s"
| "stringify (JArr xs) = CHR ''['' # stringify_elements xs @ '']''"
| "stringify (JObj kvs) = CHR ''{'' # stringify_members kvs @ ''}''"
| "stringify_elements [] = []"
| "stringify_elements (x # xs) =
     stringify x @ (if xs = [] then [] else CHR '','' # stringify_elements xs)"
| "stringify_members [] = []"
| "stringify_members ((k, v) # kvs) =
     quote k @ CHR '':'' # stringify v @ (if kvs = [] then [] else CHR '','' # stringify_members kvs)"

subsection \<open>The rewrite of the operators\<close>

text \<open>
  \<^verbatim>\<open>queryStr.replace(/\b(gt|gte|lt|lte|in)\b/g, match => `$${match}`)\<close>.
  A word character is one of \<^verbatim>\<open>[A-Za-z0-9_]\<close>.
\<close>

definition is_word_char :: "char \<Rightarrow> bool" where
  "is_word_char c =
     (let n = of_char c :: nat
      in (48 \<le> n \<and> n \<le> 57) \<or> (65 \<le> n \<and> n \<le> 90) \<or> n = 95 \<or> (97 \<le> n \<and> n \<le> 122))"

definition operators :: "string list" where
  "operators = [''gt'', ''gte'', ''lt'', ''lte'', ''in'']"

text \<open>
  \<^verbatim>\<open>\b\<close> at a position: exactly one of the character before (\<open>prev\<close> says whether
  it is a word character; there is none at the start) and the character after is a word
  character.
\<close>

definition word_boundary :: "bool \<Rightarrow> string \<Rightarrow> bool" where
  "word_boundary prev rest = (prev \<noteq> (rest \<noteq> [] \<and> is_word_char (hd rest)))"

text \<open>
  The match of the pattern at the start of \<open>text\<close>: the first alternative, in the order
  of the pattern, that the text starts with and that ends at a word boundary (its last
  character is a word character).
\<close>

definition match_at :: "bool \<Rightarrow> string \<Rightarrow> string option" where
  "match_at prev text =
     (if word_boundary prev text
      then find (\<lambda>t. take (length t) text = t \<and> word_boundary True (drop (length t) text)) operators
      else None)"

text \<open>
  The global replace scans from the left: at a match it emits the sigil and the match and
  resumes after it, otherwise it copies one character.
\<close>

function replace_ops :: "bool \<Rightarrow> string \<Rightarrow> string" where
  "replace_ops prev [] = []"
| "replace_ops prev (c # cs) =
     (case match_at prev (c # cs) of
        Some t \<Rightarrow> CHR ''$'' # t @ replace_ops True (drop (length t) (c # cs))
      | None \<Rightarrow> c # replace_ops (is_word_char c) cs)"
  by pat_completeness auto
termination
proof (relation "measure (\<lambda>(prev, text). length text)")
  fix prev :: bool and c :: char and cs :: string and t :: string
  assume "match_at prev (c # cs) = Some t"
  then have "t \<in> set operators"
    by (auto simp: match_at_def find_Some_iff split: if_splits)
  then have "t \<noteq> []" by (auto simp: operators_def)
  then show "((True, drop (length t) (c # cs)), (prev, c # cs)) \<in> measure (\<lambda>(prev, text). length text)"
    by (cases t) auto
qed auto

subsection \<open>JSON.parse\<close>

definition is_json_ws :: "char \<Rightarrow> bool" where
  "is_json_ws c = (c = CHR 0x20 \<or> c = CHR 0x09 \<or> c = CHR 0x0A \<or> c = CHR 0x0D)"

definition skip_ws :: "string \<Rightarrow> string" where
  "skip_ws text = dropWhile is_json_ws text"

definition hex_value :: "char \<Rightarrow> nat option" where
  "hex_value c =
     (let n = of_char c :: nat
      in if 48 \<le> n \<and> n \<le> 57 then Some (n - 48)
         else if 97 \<le> n \<and> n \<le> 102 then Some (n - 87)
         else if 65 \<le> n \<and> n \<le> 70 then Some (n - 55)
         else None)"

text \<open>The character after a backslash, other than \<^verbatim>\<open>u\<close>.\<close>

definition unescape :: "char \<Rightarrow> char option" where
  "unescape e =
     (if e = CHR 0x22 then Some (CHR 0x22)
      else if e = CHR 0x5C then Some (CHR 0x5C)
      else if e = CHR ''/'' then Some (CHR ''/'')
      else if e = CHR ''b'' then Some (CHR 0x08)
      else if e = CHR ''f'' then Some (CHR 0x0C)
      else if e = CHR ''n'' then Some (CHR 0x0A)
      else if e = CHR ''r'' then Some (CHR 0x0D)
      else if e = CHR ''t'' then Some (CHR 0x09)
      else None)"

text \<open>
  \<^verbatim>\<open>\uXXXX\<close>: the code unit of four hexadecimal digits. Code units from 256 on are
  outside \<^typ>\<open>char\<close>; the parser of this model rejects them.
\<close>

definition code_unit :: "char \<Rightarrow> char \<Rightarrow> char \<Rightarrow> char \<Rightarrow> char option" where
  "code_unit a b c d =
     (case (hex_value a, hex_value b, hex_value c, hex_value d) of
        (Some w, Some x, Some y, Some z) \<Rightarrow>
          (if w = 0 \<and> x = 0 then Some (char_of (16 * y + z)) else None)
      | _ \<Rightarrow> None)"

text \<open>The characters of a string literal after its opening quotation mark.\<close>

fun parse_chars :: "string \<Rightarrow> (string \<times> string) option" where
  "parse_chars [] = None"
| "parse_chars (c # cs) =
     (if c = CHR 0x22 then Some ([], cs)
      else if c = CHR 0x5C then
        (case cs of
           [] \<Rightarrow> None
         | e # es \<Rightarrow>
            (if e = CHR ''u'' then
               (case es of
                  a # b # c' # d # r \<Rightarrow>
                    (case code_unit a b c' d of
                       None \<Rightarrow> None
                     | Some u \<Rightarrow>
                        (case parse_chars r of None \<Rightarrow> None | Some (s, r') \<Rightarrow> Some (u # s, r')))
                | _ \<Rightarrow> None)
             else
               (case unescape e of
                  None \<Rightarrow> None
                | Some u \<Rightarrow>
                   (case parse_chars es of None \<Rightarrow> None | Some (s, r') \<Rightarrow> Some (u # s, r')))))
      else if (of_char c :: nat) < 32 then None
      else (case parse_chars cs of None \<Rightarrow> None | Some (s, r') \<Rightarrow> Some (c # s, r')))"

text \<open>
  The own properties of an object are enumerated with the array indices first, in
  ascending order, then the other keys in the order of their creation.
\<close>

definition is_array_index :: "string \<Rightarrow> bool" where
  "is_array_index k =
     (k \<noteq> [] \<and> list_all is_digit k \<and> (k = ''0'' \<or> hd k \<noteq> CHR ''0'')
      \<and> digits_value k \<le> 4294967294)"

fun insert_index :: "props \<Rightarrow> string \<Rightarrow> jsval \<Rightarrow> props" where
  "insert_index [] k v = [(k, v)]"
| "insert_index ((k', v') # obj) k v =
     (if is_array_index k' \<and> digits_value k' < digits_value k
      then (k', v') # insert_index obj k v
      else (k, v) # (k', v') # obj)"

text \<open>Creating a data property: an existing key keeps its place and takes the new value.\<close>

definition define_prop :: "props \<Rightarrow> string \<Rightarrow> jsval \<Rightarrow> props" where
  "define_prop obj k v =
     (if k \<in> set (map fst obj) then map (\<lambda>kv. if fst kv = k then (k, v) else kv) obj
      else if is_array_index k then insert_index obj k v
      else obj @ [(k, v)])"

text \<open>
  The parser of JSON values, by recursive descent; the fuel bounds the depth of the
  recursion and \<open>None\<close> is a SyntaxError. Values are strings, arrays and objects: a
  number or a literal name, which no \<^typ>\<open>jsval\<close> stands for, is rejected.
\<close>

fun parse_value :: "nat \<Rightarrow> string \<Rightarrow> (jsval \<times> string) option"
  and parse_elements :: "nat \<Rightarrow> jsval list \<Rightarrow> string \<Rightarrow> (jsval \<times> string) option"
  and parse_members :: "nat \<Rightarrow> props \<Rightarrow> string \<Rightarrow> (jsval \<times> string) option" where
  "parse_value 0 text = None"
| "parse_value (Suc n) text =
     (case skip_ws text of
        [] \<Rightarrow> None
      | c # cs \<Rightarrow>
         (if c = CHR 0x22 then
            (case parse_chars cs of None \<Rightarrow> None | Some (s, r) \<Rightarrow> Some (JStr s, r))
          else if c = CHR ''['' then
            (case skip_ws cs of
               [] \<Rightarrow> None
             | d # r \<Rightarrow> if d = CHR '']'' then Some (JArr [], r) else parse_elements n [] cs)
          else if c = CHR ''{'' then
            (case skip_ws cs of
               [] \<Rightarrow> None
             | d # r \<Rightarrow> if d = CHR ''}'' then Some (JObj [], r) else parse_members n [] cs)
          else None))"
| "parse_elements 0 acc text = None"
| "parse_elements (Suc n) acc text =
     (case parse_value n text of
        None \<Rightarrow> None
      | Some (v, r) \<Rightarrow>
         (case skip_ws r of
            [] \<Rightarrow> None
          | d # r' \<Rightarrow>
             (if d = CHR '','' then parse_elements n (acc @ [v]) r'
              else if d = CHR '']'' then Some (JArr (acc @ [v]), r')
              else None)))"
| "parse_members 0 acc text = None"
| "parse_members (Suc n) acc text =
     (case skip_ws text of
        [] \<Rightarrow> None
      | c # cs \<Rightarrow>
         (if c = CHR 0x22 then
            (case parse_chars cs of
               None \<Rightarrow> None
             | Some (k, r) \<Rightarrow>
                (case skip_ws r of
                   [] \<Rightarrow> None
                 | d # r1 \<Rightarrow>
                    (if d = CHR '':'' then
                       (case parse_value n r1 of
                          None \<Rightarrow> None
                        | Some (v, r2) \<Rightarrow>
                           (case skip_ws r2 of
                              [] \<Rightarrow> None
                            | d' # r3 \<Rightarrow>
                               (if d' = CHR '','' then parse_members n (define_prop acc k v) r3
                                else if d' = CHR ''}'' then Some (JObj (define_prop acc k v), r3)
                                else None)))
                     else None)))
          else None))"

text \<open>\<^verbatim>\<open>JSON.parse(text)\<close>: one value and nothing but white space after it.\<close>

definition JSON_parse :: "string \<Rightarrow> error + jsval" where
  "JSON_parse text =
     (case parse_value (Suc (length text)) text of
        None \<Rightarrow> Inl SyntaxError
      | Some (v, r) \<Rightarrow> if skip_ws r = [] then Inr v else Inl SyntaxError)"

subsection \<open>filter()\<close>

definition removeFields :: "string list" where
  "removeFields = [''sort'', ''fields'', ''q'', ''limit'', ''page'']"

text \<open>
  \<^verbatim>\<open>const queryCopy = {...this.queryStr}\<close> allocates a new object, at the next free
  address, with the properties of the parameters; the deletions update that object.
\<close>

definition filter_api :: "state \<Rightarrow> error option \<times> state" where
  "filter_api s =
     (let (h, b) = s;
          queryCopy = length h;
          h1 = h @ [h ! queryStr b];
          h2 = foldl (\<lambda>h' el. h'[queryCopy := delete_prop (h' ! queryCopy) el]) h1 removeFields;
          text = stringify (JObj (h2 ! queryCopy));
          text' = replace_ops False text
      in case JSON_parse text' of
           Inl e \<Rightarrow> (Some e, (h2, b))
         | Inr p \<Rightarrow> (None, (h2, b\<lparr>query := h_find p (query b)\<rparr>)))"

subsection \<open>Chains of calls\<close>

datatype stage = Filter | Sort | LimitFields | SearchByQuery | Pagination

fun call :: "stage \<Rightarrow> state \<Rightarrow> error option \<times> state" where
  "call Filter s = filter_api s"
| "call Sort s = sort_api s"
| "call LimitFields s = limitFields s"
| "call SearchByQuery s = searchByQuery s"
| "call Pagination s = pagination s"

text \<open>
  \<^verbatim>\<open>builder.m1().m2()...\<close>: a call that throws ends the chain, and the state stays as
  it was at the throw.
\<close>

fun chain :: "stage list \<Rightarrow> state \<Rightarrow> error option \<times> state" where
  "chain [] s = (None, s)"
| "chain (m # ms) s =
     (case call m s of (Some e, s') \<Rightarrow> (Some e, s') | (None, s') \<Rightarrow> chain ms s')"

section \<open>Notions of the specification\<close>

text \<open>The handle the callers pass to the constructor, with nothing applied yet.\<close>

definition new_query :: handle where
  "new_query = \<lparr>conditions = [], sort_spec = None, projection = None,
                 skip_count = None, limit_count = None\<rparr>"

text \<open>
  A parameter fails integer parsing when \<^verbatim>\<open>parseInt\<close> returns NaN; that is also
  what it returns for an absent parameter.
\<close>

definition unparseable :: "jsval option \<Rightarrow> bool" where
  "unparseable v =
     (case to_string_arg v of Inl e \<Rightarrow> False | Inr str \<Rightarrow> parseInt10 str = None)"

text \<open>The integers that a JavaScript number holds exactly.\<close>

definition safe_integer :: "int \<Rightarrow> bool" where
  "safe_integer n = (\<bar>n\<bar> \<le> 2 ^ 53)"


text \<open>
  What the rewrite of the serialised text does to a string of the object, told on the
  string itself: the sigil goes before every operator that stands as a whole word. A
  control character is serialised as an escape that ends in a letter or a digit, so it
  counts as a word character for what follows it.
\<close>

fun rewrite_str :: "bool \<Rightarrow> string \<Rightarrow> string" where
  "rewrite_str prev [] = []"
| "rewrite_str prev (c # cs) =
     (if match_at prev (c # cs) = None then [] else ''$'')
       @ c # rewrite_str (is_word_char c \<or> (of_char c :: nat) < 32) cs"

text \<open>
  The same on a value: every string and every key is rewritten; the properties of an
  object are created in order, so that of two keys that become equal the first keeps the
  place and the last gives the value.
\<close>

fun rewrite_tree :: "jsval \<Rightarrow> jsval"
  and rewrite_elements :: "jsval list \<Rightarrow> jsval list"
  and rewrite_members :: "props \<Rightarrow> props \<Rightarrow> props" where
  "rewrite_tree (JStr s) = JStr (rewrite_str False s)"
| "rewrite_tree (JArr xs) = JArr (rewrite_elements xs)"
| "rewrite_tree (JObj kvs) = JObj (rewrite_members [] kvs)"
| "rewrite_elements [] = []"
| "rewrite_elements (x # xs) = rewrite_tree x # rewrite_elements xs"
| "rewrite_members acc [] = acc"
| "rewrite_members acc ((k, v) # kvs) =
     rewrite_members (define_prop acc (rewrite_str False k) (rewrite_tree v)) kvs"

text \<open>The keys of a value, at every depth.\<close>

fun all_keys :: "jsval \<Rightarrow> string list"
  and elements_keys :: "jsval list \<Rightarrow> string list"
  and members_keys :: "props \<Rightarrow> string list" where
  "all_keys (JStr s) = []"
| "all_keys (JArr xs) = elements_keys xs"
| "all_keys (JObj kvs) = members_keys kvs"
| "elements_keys [] = []"
| "elements_keys (x # xs) = all_keys x @ elements_keys xs"
| "members_keys [] = []"
| "members_keys ((k, v) # kvs) = k # all_keys v @ members_keys kvs"

text \<open>The parameters that are left without the reserved keys.\<close>

definition remaining :: "props \<Rightarrow> props" where
  "remaining obj = filter (\<lambda>kv. fst kv \<notin> set removeFields) obj"

text \<open>A field name in which the rewrite finds no operator and which has no sigil.\<close>

definition operator_free :: "string \<Rightarrow> bool" where
  "operator_free f = (rewrite_str False f = f \<and> CHR ''$'' \<notin> set f)"

section \<open>Auxiliary facts\<close>

declare replace_ops.simps [simp del] parse_value.simps [simp del] parse_chars.simps [simp del]

lemma delete_fold_heap:
  "n < length h1 \<Longrightarrow>
   foldl (\<lambda>h' el. h'[n := delete_prop (h' ! n) el]) h1 els = h1[n := foldl delete_prop (h1 ! n) els]"
  by (induction els arbitrary: h1) auto

lemma filter_api_eq:
  "filter_api (h, b) =
     (let copy = foldl delete_prop (h ! queryStr b) removeFields
      in case JSON_parse (replace_ops False (stringify (JObj copy))) of
           Inl e \<Rightarrow> (Some e, (h @ [copy], b))
         | Inr p \<Rightarrow> (None, (h @ [copy], b\<lparr>query := h_find p (query b)\<rparr>)))"
proof -
  have "foldl (\<lambda>h' el. h'[length h := delete_prop (h' ! length h) el]) (h @ [h ! queryStr b]) removeFields
        = h @ [foldl delete_prop (h ! queryStr b) removeFields]"
    by (subst delete_fold_heap) simp_all
  then show ?thesis
    unfolding filter_api_def Let_def by (simp del: stringify.simps split: sum.splits)
qed

lemma filter_api_frame:
  assumes "filter_api (h, b) = (r, (h', b'))"
  shows "take (length h) h' = h \<and> queryStr b' = queryStr b
         \<and> sort_spec (query b') = sort_spec (query b)"
  using assms unfolding filter_api_eq Let_def
  by (auto simp: h_find_def split: sum.splits)

lemma call_frame:
  assumes "call m (h, b) = (r, (h', b'))"
  shows "take (length h) h' = h \<and> queryStr b' = queryStr b"
proof (cases m)
  case Filter
  with assms filter_api_frame[of h b r h' b'] show ?thesis by simp
next
  case Sort
  with assms show ?thesis by (auto simp: sort_api_def split: if_splits sum.splits)
next
  case LimitFields
  with assms show ?thesis by (auto simp: limitFields_def split: if_splits sum.splits)
next
  case SearchByQuery
  with assms show ?thesis by (auto simp: searchByQuery_def split: if_splits sum.splits)
next
  case Pagination
  with assms show ?thesis by (auto simp: pagination_def split: if_splits sum.splits)
qed

lemma take_all_length: "take n xs = ys \<Longrightarrow> length ys = n \<Longrightarrow> n \<le> length xs"
  by (metis length_take min.cobounded1 min.commute)

lemma call_params:
  assumes "call m (h, b) = (r, (h', b'))" and "queryStr b < length h"
  shows "queryStr b' < length h' \<and> h' ! queryStr b' = h ! queryStr b"
proof -
  from call_frame[OF assms(1)] have t: "take (length h) h' = h" and q: "queryStr b' = queryStr b"
    by simp_all
  have len: "length h \<le> length h'"
    using t by (rule take_all_length) simp
  have "h' ! queryStr b = take (length h) h' ! queryStr b"
    using assms(2) by simp
  with t q assms(2) len show ?thesis by simp
qed

lemma chain_frame:
  "take (length h) (fst (snd (chain ms (h, b)))) = h
   \<and> queryStr (snd (snd (chain ms (h, b)))) = queryStr b"
proof (induction ms arbitrary: h b)
  case Nil
  show ?case by simp
next
  case (Cons m ms)
  obtain r h1 b1 where c: "call m (h, b) = (r, (h1, b1))"
    by (metis prod.exhaust)
  from call_frame[OF c] have t: "take (length h) h1 = h" and q: "queryStr b1 = queryStr b"
    by simp_all
  show ?case
  proof (cases r)
    case (Some e)
    with c t q show ?thesis by simp
  next
    case None
    have len: "length h \<le> length h1"
      using t by (rule take_all_length) simp
    from Cons.IH[of h1 b1] have
      i1: "take (length h1) (fst (snd (chain ms (h1, b1)))) = h1" and
      i2: "queryStr (snd (snd (chain ms (h1, b1)))) = queryStr b1" by simp_all
    have "take (length h) (take (length h1) (fst (snd (chain ms (h1, b1))))) = take (length h) h1"
      using i1 by simp
    then have "take (length h) (fst (snd (chain ms (h1, b1)))) = take (length h) h1"
      using len by (simp add: min.absorb1)
    with None c t q i2 show ?thesis by simp
  qed
qed

lemma call_keeps_sort:
  assumes "call m (h, b) = (r, (h', b'))" and "m \<noteq> Sort"
  shows "sort_spec (query b') = sort_spec (query b)"
proof (cases m)
  case Filter
  with assms filter_api_frame[of h b r h' b'] show ?thesis by simp
next
  case Sort
  with assms show ?thesis by simp
next
  case LimitFields
  with assms show ?thesis by (auto simp: limitFields_def h_select_def split: if_splits sum.splits)
next
  case SearchByQuery
  with assms show ?thesis by (auto simp: searchByQuery_def h_find_def split: if_splits sum.splits)
next
  case Pagination
  with assms show ?thesis by (auto simp: pagination_def h_skip_def h_limit_def split: if_splits sum.splits)
qed

lemma chain_sort_default:
  assumes "get_prop (h ! queryStr b) ''sort'' = None" and "queryStr b < length h"
    and "chain ms (h, b) = (None, s')"
    and "Sort \<in> set ms \<or> sort_spec (query b) = Some ''-postingDate''"
  shows "sort_spec (query (snd s')) = Some ''-postingDate''"
  using assms
proof (induction ms arbitrary: h b)
  case Nil
  then show ?case by auto
next
  case (Cons m ms)
  obtain r h1 b1 where c: "call m (h, b) = (r, (h1, b1))"
    by (metis prod.exhaust)
  with Cons.prems(3) have r: "r = None" and rest: "chain ms (h1, b1) = (None, s')"
    by (auto split: option.splits)
  from call_params[OF c Cons.prems(2)] have
    wf1: "queryStr b1 < length h1" and p1: "h1 ! queryStr b1 = h ! queryStr b" by simp_all
  have s1: "sort_spec (query b1) = Some ''-postingDate'' \<or> Sort \<in> set ms"
  proof (cases "m = Sort")
    case True
    with c Cons.prems(1) show ?thesis
      by (auto simp: sort_api_def truthy_def h_sort_def)
  next
    case False
    from call_keeps_sort[OF c False] Cons.prems(4) False show ?thesis by auto
  qed
  show ?case
    using Cons.IH[of h1 b1] Cons.prems(1) wf1 p1 rest s1 by auto
qed

lemma join_split: "join [s] (split c str) = map (\<lambda>x. if x = c then s else x) str"
proof (induction str)
  case Nil
  show ?case by simp
next
  case (Cons x xs)
  obtain p ps where sp: "split c xs = p # ps"
    by (cases xs; cases "split c xs") (auto split: if_splits list.splits)
  show ?case
  proof (cases "x = c")
    case True
    with Cons sp show ?thesis by simp
  next
    case False
    with Cons sp show ?thesis by (cases ps) auto
  qed
qed




lemma parseInt10_examples:
  "parseInt10 ''3'' = Some 3" "parseInt10 ''5'' = Some 5" "parseInt10 ''0'' = Some 0"
  "parseInt10 ''-2'' = Some (- 2)" "parseInt10 ''abc'' = None" "parseInt10 ''undefined'' = None"
  by (simp_all add: parseInt10_def is_js_space_def is_digit_def digits_value_def)

subsection \<open>The rewrite, character by character\<close>

lemma match_at_Some:
  assumes "match_at prev text = Some t"
  shows "t \<in> set operators" and "take (length t) text = t"
    and "word_boundary True (drop (length t) text)" and "word_boundary prev text"
  using assms by (auto simp: match_at_def find_Some_iff split: if_splits)

lemma word_char_simps [simp]:
  "\<not> is_word_char (CHR 0x22)" "\<not> is_word_char (CHR 0x5C)" "\<not> is_word_char (CHR ''['')"
  "\<not> is_word_char (CHR '']'')" "\<not> is_word_char (CHR ''{'')" "\<not> is_word_char (CHR ''}'')"
  "\<not> is_word_char (CHR '','')" "\<not> is_word_char (CHR '':'')" "\<not> is_word_char (CHR ''$'')"
  by (simp_all add: is_word_char_def)

lemma match_at_not_op_start:
  "c \<noteq> CHR ''g'' \<Longrightarrow> c \<noteq> CHR ''l'' \<Longrightarrow> c \<noteq> CHR ''i'' \<Longrightarrow> match_at p (c # cs) = None"
  by (auto simp: match_at_def operators_def)

lemma match_at_non_word: "\<not> is_word_char c \<Longrightarrow> match_at p (c # cs) = None"
  by (rule match_at_not_op_start) (auto simp: is_word_char_def)

lemma match_at_inside_word: "is_word_char c \<Longrightarrow> match_at True (c # cs) = None"
  by (simp add: match_at_def word_boundary_def)

lemma operators_word: "t \<in> set operators \<Longrightarrow> list_all is_word_char t \<and> t \<noteq> []"
  by (auto simp: operators_def is_word_char_def)

lemma replace_ops_word_run:
  "list_all is_word_char w \<Longrightarrow> replace_ops True (w @ r) = w @ replace_ops True r"
  by (induction w) (simp_all add: replace_ops.simps match_at_inside_word)

lemma replace_ops_step:
  "replace_ops p (c # cs) =
     (if match_at p (c # cs) = None then [] else ''$'') @ c # replace_ops (is_word_char c) cs"
proof (cases "match_at p (c # cs)")
  case None
  then show ?thesis by (simp add: replace_ops.simps)
next
  case (Some t)
  from match_at_Some[OF Some] have t: "t \<in> set operators" and tk: "take (length t) (c # cs) = t"
    by simp_all
  from operators_word[OF t] obtain t' where tt: "t = c # t'" and w: "is_word_char c" "list_all is_word_char t'"
    using tk by (cases t) auto
  have cs: "cs = t' @ drop (length t) (c # cs)"
    using tk tt by (metis append_take_drop_id list.inject append_Cons)
  have "replace_ops True cs = t' @ replace_ops True (drop (length t) (c # cs))"
    using replace_ops_word_run[OF w(2), of "drop (length t) (c # cs)"] cs by simp
  with Some tt w show ?thesis by (simp add: replace_ops.simps)
qed

lemma replace_ops_non_word:
  "\<not> is_word_char c \<Longrightarrow> replace_ops p (c # cs) = c # replace_ops False cs"
  by (simp add: replace_ops_step match_at_non_word)

lemma escape_simps [simp]:
  "escape [] = []" "escape (c # cs) = escape_char c @ escape cs"
  by (simp_all add: escape_def)

lemma word_char_ge: "is_word_char c \<Longrightarrow> 48 \<le> (of_char c :: nat)"
  unfolding is_word_char_def Let_def by linarith

lemma escape_char_word:
  assumes "is_word_char c"
  shows "escape_char c = [c]"
proof -
  have n: "48 \<le> (of_char c :: nat)"
    using assms by (rule word_char_ge)
  have "c \<noteq> CHR 0x5C" "c \<noteq> CHR 0x22"
    using assms by auto
  moreover have "c \<noteq> CHR 0x08" "c \<noteq> CHR 0x0C" "c \<noteq> CHR 0x0A" "c \<noteq> CHR 0x0D" "c \<noteq> CHR 0x09"
    using n by auto
  ultimately show ?thesis
    using n by (simp add: escape_char_def)
qed

lemma escape_char_hd: "escape_char c \<noteq> [] \<and> is_word_char (hd (escape_char c)) = is_word_char c"
  by (auto simp: escape_char_def is_word_char_def)

lemma escaped_text_hd:
  "is_word_char (hd (escape s @ CHR 0x22 # rest)) = (s \<noteq> [] \<and> is_word_char (hd s))"
proof (cases s)
  case Nil
  then show ?thesis by simp
next
  case (Cons c cs)
  with escape_char_hd[of c] show ?thesis by (cases "escape_char c") auto
qed

lemma escaped_prefix:
  "list_all is_word_char t \<Longrightarrow>
   (take (length t) (escape s @ CHR 0x22 # rest) = t) = (take (length t) s = t)
   \<and> (take (length t) s = t \<longrightarrow>
        drop (length t) (escape s @ CHR 0x22 # rest) = escape (drop (length t) s) @ CHR 0x22 # rest)"
proof (induction t arbitrary: s)
  case Nil
  show ?case by simp
next
  case (Cons x t')
  then have wx: "is_word_char x" and wt: "list_all is_word_char t'" by simp_all
  show ?case
  proof (cases s)
    case Nil
    with wx show ?thesis by auto
  next
    case (Cons c cs)
    show ?thesis
    proof (cases "is_word_char c")
      case True
      have e: "escape_char c = [c]" "escape_char x = [x]"
        using True wx by (simp_all add: escape_char_word)
      from Cons Cons.IH[OF wt, of cs] show ?thesis by (auto simp: e)
    next
      case False
      from escape_char_hd[of c] False obtain e es where e: "escape_char c = e # es" "\<not> is_word_char e"
        by (cases "escape_char c") auto
      with Cons False wx show ?thesis by auto
    qed
  qed
qed

lemma word_boundary_escaped:
  "word_boundary p (escape s @ CHR 0x22 # rest) = word_boundary p s"
  using escaped_text_hd[of s rest] by (simp add: word_boundary_def)

lemma match_at_escaped: "match_at p (escape s @ CHR 0x22 # rest) = match_at p s"
proof -
  have "(take (length t) (escape s @ CHR 0x22 # rest) = t
          \<and> word_boundary True (drop (length t) (escape s @ CHR 0x22 # rest)))
        = (take (length t) s = t \<and> word_boundary True (drop (length t) s))"
    if "t \<in> set operators" for t
    using escaped_prefix[of t s rest] operators_word[OF that]
      word_boundary_escaped[of True "drop (length t) s" rest] by auto
  then have "find (\<lambda>t. take (length t) (escape s @ CHR 0x22 # rest) = t
          \<and> word_boundary True (drop (length t) (escape s @ CHR 0x22 # rest))) operators
     = find (\<lambda>t. take (length t) s = t \<and> word_boundary True (drop (length t) s)) operators"
    by (intro find_cong) auto
  then show ?thesis
    by (simp add: match_at_def word_boundary_escaped)
qed

lemma hex_digit_cases:
  assumes "k < 16"
  shows "hex_value (hex_digit k) = Some k \<and> is_word_char (hex_digit k)"
proof (cases "k < 10")
  case True
  then have "(of_char (hex_digit k) :: nat) = 48 + k"
    by (simp add: hex_digit_def)
  with True show ?thesis by (simp add: hex_value_def is_word_char_def)
next
  case False
  with assms have "(of_char (hex_digit k) :: nat) = 87 + k"
    by (simp add: hex_digit_def)
  with False assms show ?thesis by (simp add: hex_value_def is_word_char_def)
qed

subsection \<open>Parsing the rewritten text\<close>

lemma escape_char_plain:
  assumes "escape_char c = [c]"
  shows "c \<noteq> CHR 0x22" "c \<noteq> CHR 0x5C" "\<not> (of_char c :: nat) < 32"
  using assms by (auto simp: escape_char_def split: if_splits)

lemma parse_chars_plain:
  assumes "escape_char c = [c]"
  shows "parse_chars (c # Y) = (case parse_chars Y of None \<Rightarrow> None | Some (s, r) \<Rightarrow> Some (c # s, r))"
  using escape_char_plain[OF assms] by (simp add: parse_chars.simps)

lemma escape_char_dollar: "escape_char (CHR ''$'') = ''$''"
  by (simp add: escape_char_def)

lemma escape_char_kinds:
  "escape_char c = [c]
   \<or> (c = CHR 0x22 \<or> c = CHR 0x5C) \<and> escape_char c = [CHR 0x5C, c]
   \<or> (of_char c :: nat) < 32 \<and> (\<exists>e. escape_char c = [CHR 0x5C, e] \<and> unescape e = Some c
          \<and> e \<noteq> CHR ''u'' \<and> is_word_char e \<and> e \<noteq> CHR ''g'' \<and> e \<noteq> CHR ''l'' \<and> e \<noteq> CHR ''i'')
   \<or> (of_char c :: nat) < 32 \<and> escape_char c = [CHR 0x5C, CHR ''u'', CHR ''0'', CHR ''0'',
         hex_digit (of_char c div 16), hex_digit (of_char c mod 16)]"
  by (simp add: escape_char_def unescape_def is_word_char_def)

lemma code_unit_hex:
  assumes "(of_char c :: nat) < 32"
  shows "code_unit (CHR ''0'') (CHR ''0'') (hex_digit (of_char c div 16)) (hex_digit (of_char c mod 16)) = Some c"
proof -
  have d: "(of_char c :: nat) div 16 < 16" "(of_char c :: nat) mod 16 < 16"
    using assms by simp_all
  have z: "hex_value (CHR ''0'') = Some 0"
    by (simp add: hex_value_def)
  have "char_of (16 * ((of_char c :: nat) div 16) + of_char c mod 16) = c"
    by simp
  with z hex_digit_cases[OF d(1)] hex_digit_cases[OF d(2)] show ?thesis
    by (simp add: code_unit_def)
qed

lemma escaped_char_through:
  assumes "escape_char c \<noteq> [c]"
  shows "replace_ops p (escape_char c @ X) = escape_char c @ replace_ops ((of_char c :: nat) < 32) X"
    and "parse_chars (escape_char c @ Y)
          = (case parse_chars Y of None \<Rightarrow> None | Some (s, r) \<Rightarrow> Some (c # s, r))"
    and "\<not> is_word_char c"
proof -
  consider (quote) "(c = CHR 0x22 \<or> c = CHR 0x5C)" "escape_char c = [CHR 0x5C, c]"
    | (short) e where "(of_char c :: nat) < 32" "escape_char c = [CHR 0x5C, e]" "unescape e = Some c"
        "e \<noteq> CHR ''u''" "is_word_char e" "e \<noteq> CHR ''g''" "e \<noteq> CHR ''l''" "e \<noteq> CHR ''i''"
    | (long) "(of_char c :: nat) < 32" "escape_char c = [CHR 0x5C, CHR ''u'', CHR ''0'', CHR ''0'',
         hex_digit (of_char c div 16), hex_digit (of_char c mod 16)]"
    using escape_char_kinds[of c] assms by blast
  then have "replace_ops p (escape_char c @ X) = escape_char c @ replace_ops ((of_char c :: nat) < 32) X
    \<and> parse_chars (escape_char c @ Y)
          = (case parse_chars Y of None \<Rightarrow> None | Some (s, r) \<Rightarrow> Some (c # s, r))
    \<and> \<not> is_word_char c"
  proof cases
    case quote
    then show ?thesis
      by (auto simp: replace_ops_non_word parse_chars.simps unescape_def)
  next
    case short
    have nw: "\<not> is_word_char c"
      using short(1) word_char_ge[of c] by auto
    have "replace_ops p (CHR 0x5C # e # X) = CHR 0x5C # e # replace_ops True X"
      using short by (simp add: replace_ops_non_word replace_ops_step match_at_not_op_start)
    moreover have "e \<noteq> CHR 0x22 \<and> e \<noteq> CHR 0x5C"
      using short(5) by auto
    ultimately show ?thesis
      using short nw by (simp add: parse_chars.simps)
  next
    case long
    have nw: "\<not> is_word_char c"
      using long(1) word_char_ge[of c] by auto
    have d: "(of_char c :: nat) div 16 < 16" "(of_char c :: nat) mod 16 < 16"
      using long(1) by simp_all
    have w: "is_word_char (CHR ''u'')" "is_word_char (CHR ''0'')"
      by (simp_all add: is_word_char_def)
    have "replace_ops p (escape_char c @ X) = escape_char c @ replace_ops True X"
      unfolding long(2)
      using hex_digit_cases[OF d(1)] hex_digit_cases[OF d(2)] w
      by (simp add: replace_ops_non_word replace_ops_step match_at_not_op_start match_at_inside_word)
    moreover have "parse_chars (escape_char c @ Y)
          = (case parse_chars Y of None \<Rightarrow> None | Some (s, r) \<Rightarrow> Some (c # s, r))"
      unfolding long(2) using code_unit_hex[OF long(1)]
      by (simp add: parse_chars.simps)
    ultimately show ?thesis using long(1) nw by simp
  qed
  then show "replace_ops p (escape_char c @ X) = escape_char c @ replace_ops ((of_char c :: nat) < 32) X"
    and "parse_chars (escape_char c @ Y)
          = (case parse_chars Y of None \<Rightarrow> None | Some (s, r) \<Rightarrow> Some (c # s, r))"
    and "\<not> is_word_char c" by simp_all
qed

lemma parse_rewritten_chars:
  "parse_chars (replace_ops p (escape s @ CHR 0x22 # rest))
     = Some (rewrite_str p s, replace_ops False rest)"
proof (induction s arbitrary: p)
  case Nil
  show ?case by (simp add: replace_ops_non_word parse_chars.simps)
next
  case (Cons c cs)
  let ?X = "escape cs @ CHR 0x22 # rest"
  show ?case
  proof (cases "escape_char c = [c]")
    case True
    have m: "match_at p (c # ?X) = match_at p (c # cs)"
      using match_at_escaped[of p "c # cs" rest] True by simp
    from escape_char_plain[OF True] have f: "(is_word_char c \<or> (of_char c :: nat) < 32) = is_word_char c"
      by simp
    have "replace_ops p (escape (c # cs) @ CHR 0x22 # rest)
            = (if match_at p (c # cs) = None then [] else ''$'') @ c # replace_ops (is_word_char c) ?X"
      using True m by (simp add: replace_ops_step)
    then show ?thesis
      using Cons.IH[of "is_word_char c"] f parse_chars_plain[OF True] parse_chars_plain[OF escape_char_dollar]
      by simp
  next
    case False
    from escaped_char_through(1)[OF False, of p ?X]
    have r: "replace_ops p (escape_char c @ ?X) = escape_char c @ replace_ops ((of_char c :: nat) < 32) ?X" .
    from escaped_char_through(3)[OF False] have nw: "\<not> is_word_char c" .
    have "match_at p (c # cs) = None"
      using nw by (rule match_at_non_word)
    then show ?thesis
      using r nw Cons.IH[of "(of_char c :: nat) < 32"] escaped_char_through(2)[OF False]
      by simp
  qed
qed

lemma skip_ws_struct [simp]:
  "skip_ws (CHR 0x22 # r) = CHR 0x22 # r" "skip_ws (CHR ''['' # r) = CHR ''['' # r"
  "skip_ws (CHR '']'' # r) = CHR '']'' # r" "skip_ws (CHR ''{'' # r) = CHR ''{'' # r"
  "skip_ws (CHR ''}'' # r) = CHR ''}'' # r" "skip_ws (CHR '','' # r) = CHR '','' # r"
  "skip_ws (CHR '':'' # r) = CHR '':'' # r" "skip_ws [] = []"
  by (simp_all add: skip_ws_def is_json_ws_def)

lemma stringify_hd:
  "\<exists>r. stringify v = CHR 0x22 # r \<or> stringify v = CHR ''['' # r \<or> stringify v = CHR ''{'' # r"
  by (cases v) (simp_all add: quote_def)

lemma rewritten_value_hd:
  "\<exists>r. replace_ops p (stringify v @ R) = CHR 0x22 # r
     \<or> replace_ops p (stringify v @ R) = CHR ''['' # r
     \<or> replace_ops p (stringify v @ R) = CHR ''{'' # r"
  using stringify_hd[of v] by (auto simp: replace_ops_non_word)

lemma rewritten_elements_hd:
  assumes "xs \<noteq> []"
  shows "\<exists>c r. replace_ops p (stringify_elements xs @ R) = c # r \<and> c \<noteq> CHR '']'' \<and> skip_ws (c # r) = c # r"
proof -
  from assms obtain x xs' where xs: "xs = x # xs'" by (cases xs) auto
  let ?R = "(if xs' = [] then [] else CHR '','' # stringify_elements xs') @ R"
  from rewritten_value_hd[of p x ?R] show ?thesis
    unfolding xs by auto
qed

lemma parse_rewritten:
  "length (stringify v) \<le> n \<Longrightarrow>
     parse_value n (replace_ops p (stringify v @ rest)) = Some (rewrite_tree v, replace_ops False rest)"
  "xs \<noteq> [] \<Longrightarrow> length (stringify_elements xs) < n \<Longrightarrow>
     parse_elements n acc (replace_ops False (stringify_elements xs @ CHR '']'' # rest))
       = Some (JArr (acc @ rewrite_elements xs), replace_ops False rest)"
  "kvs \<noteq> [] \<Longrightarrow> length (stringify_members kvs) < n \<Longrightarrow>
     parse_members n acc' (replace_ops False (stringify_members kvs @ CHR ''}'' # rest))
       = Some (JObj (rewrite_members acc' kvs), replace_ops False rest)"
proof (induction v and xs and kvs arbitrary: n p rest and n acc rest and n acc' rest
    rule: stringify_stringify_elements_stringify_members.induct)
  case (1 s)
  then obtain m where n: "n = Suc m" by (cases n) (auto simp: quote_def)
  show ?case
    by (simp add: n quote_def parse_value.simps replace_ops_non_word parse_rewritten_chars)
next
  case (2 xs)
  then obtain m where n: "n = Suc m" and m: "length (stringify_elements xs) < m"
    by (cases n) auto
  show ?case
  proof (cases "xs = []")
    case True
    then show ?thesis
      by (simp add: n parse_value.simps replace_ops_non_word)
  next
    case False
    from rewritten_elements_hd[OF False, of False "CHR '']'' # rest"] obtain c r where
      c: "replace_ops False (stringify_elements xs @ CHR '']'' # rest) = c # r" "c \<noteq> CHR '']''"
        "skip_ws (c # r) = c # r" by blast
    have "parse_elements m [] (replace_ops False (stringify_elements xs @ CHR '']'' # rest))
        = Some (JArr ([] @ rewrite_elements xs), replace_ops False rest)"
      using False m by (rule "2.IH")
    with c show ?thesis
      by (simp add: n parse_value.simps replace_ops_non_word)
  qed
next
  case (3 kvs)
  then obtain m where n: "n = Suc m" and m: "length (stringify_members kvs) < m"
    by (cases n) auto
  show ?case
  proof (cases "kvs = []")
    case True
    then show ?thesis
      by (simp add: n parse_value.simps replace_ops_non_word)
  next
    case False
    then obtain k v kvs' where kvs: "kvs = (k, v) # kvs'" by (cases kvs) auto
    have "parse_members m [] (replace_ops False (stringify_members kvs @ CHR ''}'' # rest))
        = Some (JObj (rewrite_members [] kvs), replace_ops False rest)"
      using False m by (rule "3.IH")
    then show ?thesis
      by (simp add: n kvs parse_value.simps replace_ops_non_word quote_def)
  qed
next
  case 4
  then show ?case by simp
next
  case (5 x xs)
  then obtain m where n: "n = Suc m" by (cases n) auto
  let ?R = "(if xs = [] then [] else CHR '','' # stringify_elements xs) @ CHR '']'' # rest"
  have lx: "length (stringify x) \<le> m"
    using "5.prems"(2) n by simp
  have v: "parse_value m (replace_ops False (stringify x @ ?R)) = Some (rewrite_tree x, replace_ops False ?R)"
    using lx by (rule "5.IH"(1))
  show ?case
  proof (cases "xs = []")
    case True
    with v show ?thesis
      by (simp add: n parse_value.simps replace_ops_non_word)
  next
    case False
    have "length (stringify_elements xs) < m"
      using "5.prems"(2) n False by simp
    with False have "parse_elements m (acc @ [rewrite_tree x])
        (replace_ops False (stringify_elements xs @ CHR '']'' # rest))
        = Some (JArr ((acc @ [rewrite_tree x]) @ rewrite_elements xs), replace_ops False rest)"
      by (rule "5.IH"(2)[OF False])
    with v False show ?thesis
      by (simp add: n parse_value.simps replace_ops_non_word)
  qed
next
  case 6
  then show ?case by simp
next
  case (7 k v kvs)
  then obtain m where n: "n = Suc m" by (cases n) auto
  let ?R = "(if kvs = [] then [] else CHR '','' # stringify_members kvs) @ CHR ''}'' # rest"
  have lv: "length (stringify v) \<le> m"
    using "7.prems"(2) n by (simp add: quote_def)
  have v: "parse_value m (replace_ops False (stringify v @ ?R)) = Some (rewrite_tree v, replace_ops False ?R)"
    using lv by (rule "7.IH"(1))
  have k: "replace_ops False (stringify_members ((k, v) # kvs) @ CHR ''}'' # rest)
      = CHR 0x22 # replace_ops False (escape k @ CHR 0x22 # CHR '':'' # stringify v @ ?R)"
    by (simp add: quote_def replace_ops_non_word)
  have pk: "parse_chars (replace_ops False (escape k @ CHR 0x22 # CHR '':'' # R))
      = Some (rewrite_str False k, CHR '':'' # replace_ops False R)" for R
    by (simp add: parse_rewritten_chars replace_ops_non_word)
  show ?case
  proof (cases "kvs = []")
    case True
    with v show ?thesis
      unfolding k by (simp add: n parse_value.simps pk replace_ops_non_word)
  next
    case False
    have "length (stringify_members kvs) < m"
      using "7.prems"(2) n False by (simp add: quote_def)
    with False have "parse_members m (define_prop acc' (rewrite_str False k) (rewrite_tree v))
        (replace_ops False (stringify_members kvs @ CHR ''}'' # rest))
        = Some (JObj (rewrite_members (define_prop acc' (rewrite_str False k) (rewrite_tree v)) kvs),
                replace_ops False rest)"
      by (rule "7.IH"(2)[OF False])
    with v False show ?thesis
      unfolding k by (simp add: n parse_value.simps pk replace_ops_non_word)
  qed
qed

lemma replace_ops_Nil: "replace_ops p [] = []"
  by (simp add: replace_ops.simps)

lemma replace_ops_length: "length s \<le> length (replace_ops p s)"
  by (induction s arbitrary: p) (auto simp: replace_ops_Nil replace_ops_step intro: le_SucI)

lemma JSON_parse_rewritten:
  "JSON_parse (replace_ops False (stringify v)) = Inr (rewrite_tree v)"
proof -
  have "length (stringify v) \<le> Suc (length (replace_ops False (stringify v)))"
    using replace_ops_length[of "stringify v" False] by simp
  from parse_rewritten(1)[OF this, of False "[]"] show ?thesis
    by (simp add: JSON_parse_def replace_ops_Nil)
qed

lemma delete_props_filter:
  "foldl delete_prop obj ks = filter (\<lambda>kv. fst kv \<notin> set ks) obj"
proof (induction ks arbitrary: obj)
  case Nil
  show ?case by simp
next
  case (Cons k ks)
  have "filter (\<lambda>kv. fst kv \<notin> set ks) (filter (\<lambda>kv. fst kv \<noteq> k) obj)
      = filter (\<lambda>kv. fst kv \<notin> set (k # ks)) obj"
    by (induction obj) auto
  with Cons show ?case by (simp add: delete_prop_def)
qed

lemma filter_api_result:
  "filter_api (h, b) =
     (None, (h @ [filter (\<lambda>kv. fst kv \<notin> set removeFields) (h ! queryStr b)],
             b\<lparr>query := h_find (rewrite_tree (JObj (filter (\<lambda>kv. fst kv \<notin> set removeFields) (h ! queryStr b))))
                           (query b)\<rparr>))"
  unfolding filter_api_eq Let_def JSON_parse_rewritten delete_props_filter by simp

subsection \<open>The rewritten object\<close>

lemma rewrite_str_no_sigil:
  "rewrite_str p k = f \<Longrightarrow> CHR ''$'' \<notin> set f \<Longrightarrow> k = f"
proof (induction k arbitrary: p f)
  case Nil
  then show ?case by simp
next
  case (Cons c cs)
  show ?case
  proof (cases "match_at p (c # cs) = None")
    case True
    with Cons.prems obtain f' where f: "f = c # f'"
      "rewrite_str (is_word_char c \<or> (of_char c :: nat) < 32) cs = f'" by auto
    with Cons.prems(2) Cons.IH[of _ f'] show ?thesis by auto
  next
    case False
    with Cons.prems show ?thesis by auto
  qed
qed

lemma rewrite_str_operator: "t \<in> set operators \<Longrightarrow> rewrite_str False t = CHR ''$'' # t"
  by (auto simp: operators_def match_at_def word_boundary_def is_word_char_def)

lemma rewrite_str_not_operator: "rewrite_str False k \<notin> set operators"
proof
  assume a: "rewrite_str False k \<in> set operators"
  then have "CHR ''$'' \<notin> set (rewrite_str False k)"
    by (auto simp: operators_def)
  then have "k = rewrite_str False k"
    by (rule rewrite_str_no_sigil[OF refl])
  with a rewrite_str_operator[of k] show False by auto
qed

lemma rewrite_str_unchanged:
  "CHR ''g'' \<notin> set s \<Longrightarrow> CHR ''l'' \<notin> set s \<Longrightarrow> CHR ''i'' \<notin> set s \<Longrightarrow> rewrite_str p s = s"
  by (induction s arbitrary: p) (auto simp: match_at_not_op_start)

lemma members_keys_append:
  "members_keys (acc @ kvs) = members_keys acc @ members_keys kvs"
  by (induction acc) auto

lemma members_keys_insert_index:
  "set (members_keys (insert_index acc k v)) = insert k (set (all_keys v) \<union> set (members_keys acc))"
  by (induction acc) (auto split: if_splits)

lemma members_keys_update:
  "set (members_keys (map (\<lambda>kv. if fst kv = k then (k, v) else kv) acc))
     \<subseteq> insert k (set (all_keys v) \<union> set (members_keys acc))"
  by (induction acc) auto

lemma members_keys_define_prop:
  "set (members_keys (define_prop acc k v)) \<subseteq> insert k (set (all_keys v) \<union> set (members_keys acc))"
  using members_keys_update[of k v acc]
  by (auto simp: define_prop_def members_keys_append members_keys_insert_index)

lemma rewritten_keys:
  "\<forall>k \<in> set (all_keys (rewrite_tree v)). k \<notin> set operators"
  "\<forall>k \<in> set (elements_keys (rewrite_elements xs)). k \<notin> set operators"
  "\<forall>k \<in> set (members_keys acc). k \<notin> set operators \<Longrightarrow>
     \<forall>k \<in> set (members_keys (rewrite_members acc kvs)). k \<notin> set operators"
proof (induction v and xs and acc kvs rule: rewrite_tree_rewrite_elements_rewrite_members.induct)
  case (7 acc k v kvs)
  have "\<forall>k' \<in> set (members_keys (define_prop acc (rewrite_str False k) (rewrite_tree v))). k' \<notin> set operators"
    using members_keys_define_prop[of acc "rewrite_str False k" "rewrite_tree v"]
      "7.IH"(1) "7.prems" rewrite_str_not_operator[of k] by blast
  then show ?case
    using "7.IH"(2) by simp
qed auto

lemma map_of_update_at:
  "map_of (map (\<lambda>kv. if fst kv = k then (k, v) else kv) acc) x
     = (if x = k \<and> map_of acc k \<noteq> None then Some v else map_of acc x)"
  by (induction acc) auto

lemma map_of_update_in_place:
  "k \<in> fst ` set acc \<Longrightarrow>
   map_of (map (\<lambda>kv. if fst kv = k then (k, v) else kv) acc) = (map_of acc)(k \<mapsto> v)"
  by (rule ext) (simp add: map_of_update_at map_of_eq_None_iff)

lemma map_of_insert_index:
  "k \<notin> fst ` set acc \<Longrightarrow> map_of (insert_index acc k v) = (map_of acc)(k \<mapsto> v)"
  by (induction acc) (auto simp: fun_upd_twist)

lemma map_of_define_prop: "map_of (define_prop acc k v) = (map_of acc)(k \<mapsto> v)"
proof (cases "k \<in> fst ` set acc")
  case True
  then show ?thesis by (simp add: define_prop_def map_of_update_in_place)
next
  case False
  then have "map_of (acc @ [(k, v)]) = (map_of acc)(k \<mapsto> v)"
    by (auto simp: map_add_def fun_eq_iff split: option.splits dest: map_of_SomeD
        simp: rev_image_eqI)
  with False show ?thesis by (simp add: define_prop_def map_of_insert_index)
qed

lemma members_lookup_other:
  "\<forall>kv \<in> set kvs. rewrite_str False (fst kv) \<noteq> f \<Longrightarrow>
   map_of (rewrite_members acc kvs) f = map_of acc f"
  by (induction kvs arbitrary: acc) (auto simp: map_of_define_prop)

lemma members_lookup:
  assumes "distinct (map fst kvs)" and "map_of kvs f = Some v" and "rewrite_str False f = f"
    and "CHR ''$'' \<notin> set f"
  shows "map_of (rewrite_members acc kvs) f = Some (rewrite_tree v)"
  using assms(1,2)
proof (induction kvs arbitrary: acc)
  case Nil
  then show ?case by simp
next
  case (Cons kv kvs)
  obtain k v' where kv: "kv = (k, v')" by (cases kv)
  show ?case
  proof (cases "k = f")
    case True
    with Cons.prems kv have v': "v' = v" and nf: "f \<notin> fst ` set kvs" by auto
    have "\<forall>kv \<in> set kvs. rewrite_str False (fst kv) \<noteq> f"
    proof
      fix x assume x: "x \<in> set kvs"
      show "rewrite_str False (fst x) \<noteq> f"
      proof
        assume "rewrite_str False (fst x) = f"
        then have "fst x = f" using assms(4) by (rule rewrite_str_no_sigil)
        with x nf show False by auto
      qed
    qed
    then show ?thesis
      using True kv v' assms(3) by (simp add: members_lookup_other map_of_define_prop)
  next
    case False
    with Cons.prems kv have "distinct (map fst kvs)" "map_of kvs f = Some v" by auto
    then show ?thesis
      using Cons.IH kv by simp
  qed
qed

lemma rewrite_to_sigil_operator:
  assumes "rewrite_str False k = CHR ''$'' # t" and "t \<in> set operators"
  shows "k = t"
proof (cases k)
  case Nil
  with assms show ?thesis by simp
next
  case (Cons c cs)
  have ns: "CHR ''$'' \<notin> set t"
    using assms(2) by (auto simp: operators_def)
  show ?thesis
  proof (cases "match_at False (c # cs) = None")
    case True
    with assms(1) Cons have c: "c = CHR ''$''"
      and r: "rewrite_str (is_word_char c \<or> (of_char c :: nat) < 32) cs = t" by auto
    from c have "(is_word_char c \<or> (of_char c :: nat) < 32) = False" by simp
    with r have "rewrite_str False cs = t" by simp
    with rewrite_str_not_operator[of cs] assms(2) show ?thesis by simp
  next
    case False
    with assms(1) Cons obtain t' where t: "t = c # t'"
      and r: "rewrite_str (is_word_char c \<or> (of_char c :: nat) < 32) cs = t'" by auto
    from ns t have "CHR ''$'' \<notin> set t'" by simp
    with r have "cs = t'" by (rule rewrite_str_no_sigil)
    with t Cons show ?thesis by simp
  qed
qed

lemma members_lookup_key:
  assumes "distinct (map fst kvs)" and "map_of kvs k0 = Some v"
    and "\<forall>kv \<in> set kvs. rewrite_str False (fst kv) = rewrite_str False k0 \<longrightarrow> fst kv = k0"
  shows "map_of (rewrite_members acc kvs) (rewrite_str False k0) = Some (rewrite_tree v)"
  using assms
proof (induction kvs arbitrary: acc)
  case Nil
  then show ?case by simp
next
  case (Cons kv kvs)
  obtain k v' where kv: "kv = (k, v')" by (cases kv)
  show ?case
  proof (cases "k = k0")
    case True
    with Cons.prems kv have v': "v' = v" and nf: "k0 \<notin> fst ` set kvs" by auto
    have "\<forall>kv \<in> set kvs. rewrite_str False (fst kv) \<noteq> rewrite_str False k0"
    proof
      fix x assume x: "x \<in> set kvs"
      show "rewrite_str False (fst x) \<noteq> rewrite_str False k0"
      proof
        assume "rewrite_str False (fst x) = rewrite_str False k0"
        with Cons.prems(3) x have "fst x = k0" by simp
        with x nf show False by auto
      qed
    qed
    then show ?thesis
      using True kv v' by (simp add: members_lookup_other map_of_define_prop)
  next
    case False
    with Cons.prems kv have "distinct (map fst kvs)" "map_of kvs k0 = Some v"
      "\<forall>kv \<in> set kvs. rewrite_str False (fst kv) = rewrite_str False k0 \<longrightarrow> fst kv = k0" by auto
    then show ?thesis
      using Cons.IH kv by simp
  qed
qed

lemma members_keys_top: "fst ` set kvs \<subseteq> set (members_keys kvs)"
  by (induction kvs) auto

lemma map_of_kept:
  "f \<notin> set ks \<Longrightarrow> map_of (filter (\<lambda>kv. fst kv \<notin> set ks) obj) f = map_of obj f"
  by (induction obj) auto

lemma map_of_removed:
  "f \<in> set ks \<Longrightarrow> map_of (filter (\<lambda>kv. fst kv \<notin> set ks) obj) f = None"
  by (induction obj) auto

text \<open>A field name made of word characters only, other than the five operators, is such.\<close>

lemma rewrite_str_inside_word:
  "list_all is_word_char w \<Longrightarrow> rewrite_str True w = w"
  by (induction w) (simp_all add: match_at_inside_word)

lemma identifier_operator_free:
  assumes "list_all is_word_char f" and "f \<notin> set operators"
  shows "operator_free f"
proof (cases f)
  case Nil
  then show ?thesis by (simp add: operator_free_def)
next
  case (Cons c cs)
  have m: "match_at False f = None"
  proof (cases "match_at False f")
    case None
    then show ?thesis .
  next
    case (Some t)
    from match_at_Some[OF Some] have t: "t \<in> set operators" and tk: "take (length t) f = t"
      and wb: "word_boundary True (drop (length t) f)" by simp_all
    have "drop (length t) f = []"
    proof (rule ccontr)
      assume "drop (length t) f \<noteq> []"
      then obtain x xs where x: "drop (length t) f = x # xs" by (cases "drop (length t) f") auto
      then have "x \<in> set f" by (metis in_set_dropD list.set_intros(1))
      with assms(1) have "is_word_char x" by (simp add: list_all_iff)
      with wb x show False by (simp add: word_boundary_def)
    qed
    with tk have "f = t" by (metis append_take_drop_id append_Nil2)
    with t assms(2) show ?thesis by simp
  qed
  have w: "is_word_char c" "list_all is_word_char cs"
    using assms(1) Cons by simp_all
  have "rewrite_str False f = f"
    using m w unfolding Cons by (simp add: rewrite_str_inside_word)
  moreover have "CHR ''$'' \<notin> set f"
    using assms(1) by (auto simp: list_all_iff)
  ultimately show ?thesis by (simp add: operator_free_def)
qed

section \<open>The claims\<close>

text \<open>
  Claim C5, as amended. When \<^verbatim>\<open>q\<close> is a string that is not empty,
  \<^verbatim>\<open>searchByQuery()\<close> replaces every hyphen of it by a space, wraps the result in
  quotation marks and narrows the handle by the text search for that phrase, without
  raising. When \<^verbatim>\<open>q\<close> is absent, it leaves the state as it is and raises nothing.
\<close>
theorem searchByQuery_phrase:
  "(get_prop (h ! queryStr b) ''q'' = Some (JStr s) \<and> s \<noteq> [] \<longrightarrow>
      searchByQuery (h, b) =
        (None, (h, b\<lparr>query := h_find (text_search (map (\<lambda>c. if c = CHR ''-'' then CHR '' '' else c) s))
                                  (query b)\<rparr>)))
   \<and> (get_prop (h ! queryStr b) ''q'' = None \<longrightarrow> searchByQuery (h, b) = (None, (h, b)))"
  by (simp add: searchByQuery_def truthy_def split_join_def join_split)

text \<open>
  \<^verbatim>\<open>q=remote-engineer\<close> searches the phrase \<^verbatim>\<open>"remote engineer"\<close>; with no
  parameters the state is unchanged.
\<close>
theorem searchByQuery_phrase_witness:
  "get_prop ([[(''q'', JStr ''remote-engineer'')]] ! queryStr (constructor new_query 0)) ''q''
     = Some (JStr ''remote-engineer'') \<and> ''remote-engineer'' \<noteq> []
   \<and> conditions (query (snd (snd (searchByQuery ([[(''q'', JStr ''remote-engineer'')]], constructor new_query 0)))))
     = [JObj [(''$text'', JObj [(''$search'', JStr (CHR 0x22 # ''remote engineer'' @ [CHR 0x22]))])]]
   \<and> get_prop ([[]] ! queryStr (constructor new_query 0)) ''q'' = None
   \<and> searchByQuery ([[]], constructor new_query 0) = (None, ([[]], constructor new_query 0))"
  using searchByQuery_phrase [of "[[(''q'', JStr ''remote-engineer'')]]" "constructor new_query 0" "''remote-engineer''"]
    searchByQuery_phrase [of "[[]]" "constructor new_query 0" "[]"]
  by (simp add: get_prop_def constructor_def new_query_def h_find_def text_search_def)

text \<open>
  Claim C5 as stated fails when the parameters contain \<^verbatim>\<open>q\<close> with the empty
  string: the guard \<^verbatim>\<open>if (this.queryStr.q)\<close> is false and no predicate is
  applied.
\<close>
theorem searchByQuery_empty_q_counterexample:
  "get_prop ([[(''q'', JStr [])]] ! queryStr (constructor new_query 0)) ''q'' = Some (JStr [])
   \<and> conditions (query (snd (snd (searchByQuery ([[(''q'', JStr [])]], constructor new_query 0))))) = []"
  by (simp add: get_prop_def constructor_def new_query_def searchByQuery_def truthy_def)



text \<open>
  Claim C6. Without a \<^verbatim>\<open>sort\<close> parameter, \<^verbatim>\<open>sort()\<close> sets the ordering
  \<^verbatim>\<open>-postingDate\<close>, the one path \<^verbatim>\<open>postingDate\<close> marked as descending,
  and changes nothing else; and after any chain of calls that contains \<^verbatim>\<open>sort()\<close>
  and returns, whatever the other stages of the chain are, the ordering of the handle is
  \<^verbatim>\<open>-postingDate\<close>.
\<close>
theorem sort_default_without_sort_key:
  "get_prop (h ! queryStr b) ''sort'' = None \<longrightarrow>
     sort_api (h, b) = (None, (h, b\<lparr>query := h_sort ''-postingDate'' (query b)\<rparr>))
     \<and> paths ''-postingDate'' = [''-postingDate''] \<and> negated ''-postingDate''
     \<and> (\<forall>ms s'. queryStr b < length h \<and> Sort \<in> set ms \<and> chain ms (h, b) = (None, s') \<longrightarrow>
           sort_spec (query (snd s')) = Some ''-postingDate'')"
proof
  assume a: "get_prop (h ! queryStr b) ''sort'' = None"
  then have "sort_api (h, b) = (None, (h, b\<lparr>query := h_sort ''-postingDate'' (query b)\<rparr>))"
    by (simp add: sort_api_def truthy_def)
  moreover have "sort_spec (query (snd s')) = Some ''-postingDate''"
    if "queryStr b < length h" "Sort \<in> set ms" "chain ms (h, b) = (None, s')" for ms s'
    using chain_sort_default[OF a that(1) that(3)] that(2) by simp
  moreover have "paths ''-postingDate'' = [''-postingDate'']" "negated ''-postingDate''"
    by (simp_all add: paths_def negated_def)
  ultimately show "sort_api (h, b) = (None, (h, b\<lparr>query := h_sort ''-postingDate'' (query b)\<rparr>))
     \<and> paths ''-postingDate'' = [''-postingDate''] \<and> negated ''-postingDate''
     \<and> (\<forall>ms s'. queryStr b < length h \<and> Sort \<in> set ms \<and> chain ms (h, b) = (None, s') \<longrightarrow>
           sort_spec (query (snd s')) = Some ''-postingDate'')"
    by blast
qed

text \<open>The chain filter, sort, pagination on \<^verbatim>\<open>page=2\<close>.\<close>
theorem sort_default_without_sort_key_witness:
  "get_prop ([[(''page'', JStr ''2'')]] ! queryStr (constructor new_query 0)) ''sort'' = None
   \<and> queryStr (constructor new_query 0) < length [[(''page'', JStr ''2'')]]
   \<and> Sort \<in> set [Filter, Sort, Pagination]
   \<and> fst (chain [Filter, Sort, Pagination] ([[(''page'', JStr ''2'')]], constructor new_query 0)) = None
   \<and> sort_spec (query (snd (snd (chain [Filter, Sort, Pagination]
        ([[(''page'', JStr ''2'')]], constructor new_query 0))))) = Some ''-postingDate''"
proof -
  let ?h = "[[(''page'', JStr ''2'')]]" and ?b = "constructor new_query 0"
  let ?ms = "[Filter, Sort, Pagination]"
  have a: "get_prop (?h ! queryStr ?b) ''sort'' = None"
    by (simp add: get_prop_def constructor_def)
  have w: "queryStr ?b < length ?h"
    by (simp add: constructor_def)
  have f: "fst (chain ?ms (?h, ?b)) = None"
    by code_simp
  then have c: "chain ?ms (?h, ?b) = (None, snd (chain ?ms (?h, ?b)))"
    by (simp add: prod_eq_iff)
  from sort_default_without_sort_key [of ?h ?b] a w c
  have "sort_spec (query (snd (snd (chain ?ms (?h, ?b))))) = Some ''-postingDate''"
    by (metis list.set_intros(1) list.set_intros(2))
  with a w f show ?thesis by simp
qed

text \<open>
  Claim C8. Calling \<^verbatim>\<open>sort()\<close> twice gives the same outcome and the same state as
  calling it once; and the ordering a call sets does not depend on what the handle held
  before: the call overwrites it.
\<close>
theorem sort_twice_is_sort_once:
  "chain [Sort, Sort] (h, b) = chain [Sort] (h, b)
   \<and> (fst (sort_api (h, b)) = None \<longrightarrow>
        sort_spec (query (snd (snd (sort_api (h, b\<lparr>query := q'\<rparr>)))))
          = sort_spec (query (snd (snd (sort_api (h, b))))))"
  by (auto simp: sort_api_def h_sort_def split: sum.splits if_splits)

text \<open>
  \<^verbatim>\<open>sort=salary,-title\<close> on a handle already sorted by \<^verbatim>\<open>x\<close>, and called
  twice.
\<close>
theorem sort_twice_is_sort_once_witness:
  "fst (sort_api ([[(''sort'', JStr ''salary,-title'')]], constructor new_query 0)) = None
   \<and> sort_spec (query (snd (snd (sort_api ([[(''sort'', JStr ''salary,-title'')]],
        (constructor new_query 0)\<lparr>query := h_sort ''x'' new_query\<rparr>))))) = Some ''salary -title''
   \<and> sort_spec (query (snd (snd (chain [Sort, Sort]
        ([[(''sort'', JStr ''salary,-title'')]], constructor new_query 0))))) = Some ''salary -title''"
proof -
  let ?h = "[[(''sort'', JStr ''salary,-title'')]]" and ?b = "constructor new_query 0"
  have f: "fst (sort_api (?h, ?b)) = None"
    by code_simp
  have v: "sort_spec (query (snd (snd (sort_api (?h, ?b))))) = Some ''salary -title''"
    by code_simp
  from sort_twice_is_sort_once [of ?h ?b "h_sort ''x'' new_query"] f v
  have "sort_spec (query (snd (snd (sort_api (?h, ?b\<lparr>query := h_sort ''x'' new_query\<rparr>))))) = Some ''salary -title''"
    and "chain [Sort, Sort] (?h, ?b) = chain [Sort] (?h, ?b)"
    by simp_all
  moreover have "sort_spec (query (snd (snd (chain [Sort] (?h, ?b))))) = Some ''salary -title''"
    by code_simp
  ultimately show ?thesis using f by simp
qed

text \<open>
  Claim C10. When \<^verbatim>\<open>sort\<close>, \<^verbatim>\<open>fields\<close> or \<^verbatim>\<open>q\<close> is the empty
  string, the stage applies the default ordering, the default projection, or nothing, and
  its outcome and the builder it leaves are those of the same call on parameters without
  the key.
\<close>
theorem empty_string_is_absent:
  "(get_prop (h1 ! queryStr b) ''sort'' = Some (JStr []) \<and> get_prop (h2 ! queryStr b) ''sort'' = None \<longrightarrow>
      sort_api (h1, b) = (None, (h1, b\<lparr>query := h_sort ''-postingDate'' (query b)\<rparr>))
      \<and> fst (sort_api (h1, b)) = fst (sort_api (h2, b))
      \<and> snd (snd (sort_api (h1, b))) = snd (snd (sort_api (h2, b))))
   \<and> (get_prop (h1 ! queryStr b) ''fields'' = Some (JStr []) \<and> get_prop (h2 ! queryStr b) ''fields'' = None \<longrightarrow>
      limitFields (h1, b) = (None, (h1, b\<lparr>query := h_select ''-__v'' (query b)\<rparr>))
      \<and> fst (limitFields (h1, b)) = fst (limitFields (h2, b))
      \<and> snd (snd (limitFields (h1, b))) = snd (snd (limitFields (h2, b))))
   \<and> (get_prop (h1 ! queryStr b) ''q'' = Some (JStr []) \<and> get_prop (h2 ! queryStr b) ''q'' = None \<longrightarrow>
      searchByQuery (h1, b) = (None, (h1, b))
      \<and> fst (searchByQuery (h1, b)) = fst (searchByQuery (h2, b))
      \<and> snd (snd (searchByQuery (h1, b))) = snd (snd (searchByQuery (h2, b))))"
  by (simp add: sort_api_def limitFields_def searchByQuery_def truthy_def)

text \<open>The three keys empty against no parameters at all.\<close>
theorem empty_string_is_absent_witness:
  "get_prop ([[(''sort'', JStr []), (''fields'', JStr []), (''q'', JStr [])]] ! queryStr (constructor new_query 0)) ''sort'' = Some (JStr [])
   \<and> get_prop ([[(''sort'', JStr []), (''fields'', JStr []), (''q'', JStr [])]] ! queryStr (constructor new_query 0)) ''fields'' = Some (JStr [])
   \<and> get_prop ([[(''sort'', JStr []), (''fields'', JStr []), (''q'', JStr [])]] ! queryStr (constructor new_query 0)) ''q'' = Some (JStr [])
   \<and> get_prop ([[]] ! queryStr (constructor new_query 0)) ''sort'' = None
   \<and> get_prop ([[]] ! queryStr (constructor new_query 0)) ''fields'' = None
   \<and> get_prop ([[]] ! queryStr (constructor new_query 0)) ''q'' = None
   \<and> snd (snd (sort_api ([[(''sort'', JStr []), (''fields'', JStr []), (''q'', JStr [])]], constructor new_query 0)))
       = snd (snd (sort_api ([[]], constructor new_query 0)))
   \<and> snd (snd (limitFields ([[(''sort'', JStr []), (''fields'', JStr []), (''q'', JStr [])]], constructor new_query 0)))
       = snd (snd (limitFields ([[]], constructor new_query 0)))
   \<and> snd (snd (searchByQuery ([[(''sort'', JStr []), (''fields'', JStr []), (''q'', JStr [])]], constructor new_query 0)))
       = snd (snd (searchByQuery ([[]], constructor new_query 0)))"
proof -
  let ?h1 = "[[(''sort'', JStr []), (''fields'', JStr []), (''q'', JStr [])]]"
  let ?h2 = "[[]] :: heap" and ?b = "constructor new_query 0"
  have p: "get_prop (?h1 ! queryStr ?b) ''sort'' = Some (JStr [])"
    "get_prop (?h1 ! queryStr ?b) ''fields'' = Some (JStr [])"
    "get_prop (?h1 ! queryStr ?b) ''q'' = Some (JStr [])"
    "get_prop (?h2 ! queryStr ?b) ''sort'' = None"
    "get_prop (?h2 ! queryStr ?b) ''fields'' = None"
    "get_prop (?h2 ! queryStr ?b) ''q'' = None"
    by (simp_all add: get_prop_def constructor_def)
  with empty_string_is_absent [of ?h1 ?b ?h2] show ?thesis by blast
qed

text \<open>
  Claim C9. After any chain of stage calls, whether it returns or throws, every object that
  was in the heap before is unchanged (the copy that \<^verbatim>\<open>filter()\<close> edits is a new
  object), \<^verbatim>\<open>this.queryStr\<close> is the same reference, and so the parameters are what
  they were at construction.
\<close>
theorem snapshot_never_mutated:
  "take (length h) (fst (snd (chain ms (h, b)))) = h
   \<and> queryStr (snd (snd (chain ms (h, b)))) = queryStr b
   \<and> (queryStr b < length h \<longrightarrow> params (snd (chain ms (h, b))) = params (h, b))"
proof -
  have t: "take (length h) (fst (snd (chain ms (h, b)))) = h"
    and q: "queryStr (snd (snd (chain ms (h, b)))) = queryStr b"
    using chain_frame[of h ms b] by simp_all
  have "params (snd (chain ms (h, b))) = params (h, b)" if w: "queryStr b < length h"
  proof -
    have "fst (snd (chain ms (h, b))) ! queryStr b
          = take (length h) (fst (snd (chain ms (h, b)))) ! queryStr b"
      using w by simp
    with t q show ?thesis by (simp add: params_def)
  qed
  with t q show ?thesis by blast
qed

text \<open>All five stages on \<^verbatim>\<open>sort=a&price[gte]=50\<close>.\<close>
theorem snapshot_never_mutated_witness:
  "queryStr (constructor new_query 0) < length [[(''sort'', JStr ''a''), (''price'', JObj [(''gte'', JStr ''50'')])]]
   \<and> params (snd (chain [Filter, Sort, LimitFields, SearchByQuery, Pagination]
        ([[(''sort'', JStr ''a''), (''price'', JObj [(''gte'', JStr ''50'')])]], constructor new_query 0)))
     = [(''sort'', JStr ''a''), (''price'', JObj [(''gte'', JStr ''50'')])]"
proof -
  let ?h = "[[(''sort'', JStr ''a''), (''price'', JObj [(''gte'', JStr ''50'')])]]"
  let ?b = "constructor new_query 0"
  let ?ms = "[Filter, Sort, LimitFields, SearchByQuery, Pagination]"
  have w: "queryStr ?b < length ?h"
    by (simp add: constructor_def)
  have e: "params (?h, ?b) = [(''sort'', JStr ''a''), (''price'', JObj [(''gte'', JStr ''50'')])]"
    by (simp add: constructor_def params_def)
  from snapshot_never_mutated [of ?h ?ms ?b] w
  have "params (snd (chain ?ms (?h, ?b))) = params (?h, ?b)" by blast
  then have "params (snd (chain ?ms (?h, ?b))) = [(''sort'', JStr ''a''), (''price'', JObj [(''gte'', JStr ''50'')])]"
    using e by (rule trans)
  with w show ?thesis by (rule conjI)
qed

text \<open>
  Claim C2, as amended. When \<^verbatim>\<open>page\<close> and \<^verbatim>\<open>limit\<close> parse as the integers
  \<open>p\<close> and \<open>l\<close>, \<^verbatim>\<open>pagination()\<close> takes \<open>p\<close> as the page unless it is 0
  (then 1) and \<open>l\<close> as the limit unless it is 0 (then 10), and applies the skip
  \<open>(page - 1) * limit\<close> and that limit; negative values pass as they are. The numbers
  are in the range that JavaScript computes exactly.
\<close>
theorem pagination_skip_limit:
  "to_string_arg (get_prop (h ! queryStr b) ''page'') = Inr sp \<and> parseInt10 sp = Some p
   \<and> to_string_arg (get_prop (h ! queryStr b) ''limit'') = Inr sl \<and> parseInt10 sl = Some l
   \<and> page = (if p = 0 then 1 else p) \<and> limit = (if l = 0 then 10 else l)
   \<and> safe_integer p \<and> safe_integer l \<and> safe_integer ((page - 1) * limit) \<longrightarrow>
     pagination (h, b) = (None, (h, b\<lparr>query := h_limit limit (h_skip ((page - 1) * limit) (query b))\<rparr>))"
  by (simp add: pagination_def parse_param_def or_default_def)

text \<open>\<^verbatim>\<open>page=-2&limit=5\<close> skips \<open>-15\<close>.\<close>
theorem pagination_skip_limit_witness:
  "to_string_arg (get_prop ([[(''page'', JStr ''-2''), (''limit'', JStr ''5'')]] ! queryStr (constructor new_query 0)) ''page'') = Inr ''-2''
   \<and> parseInt10 ''-2'' = Some (- 2)
   \<and> to_string_arg (get_prop ([[(''page'', JStr ''-2''), (''limit'', JStr ''5'')]] ! queryStr (constructor new_query 0)) ''limit'') = Inr ''5''
   \<and> parseInt10 ''5'' = Some 5
   \<and> safe_integer (- 2) \<and> safe_integer 5 \<and> safe_integer ((- 2 - 1) * 5)
   \<and> pagination ([[(''page'', JStr ''-2''), (''limit'', JStr ''5'')]], constructor new_query 0)
      = (None, ([[(''page'', JStr ''-2''), (''limit'', JStr ''5'')]],
           (constructor new_query 0)\<lparr>query := h_limit 5 (h_skip (- 15) (query (constructor new_query 0)))\<rparr>))"
proof -
  let ?h = "[[(''page'', JStr ''-2''), (''limit'', JStr ''5'')]]" and ?b = "constructor new_query 0"
  have a: "to_string_arg (get_prop (?h ! queryStr ?b) ''page'') = Inr ''-2''"
    "to_string_arg (get_prop (?h ! queryStr ?b) ''limit'') = Inr ''5''"
    by (simp_all add: get_prop_def constructor_def to_string_arg_def)
  have s: "safe_integer (- 2)" "safe_integer 5" "safe_integer ((- 2 - 1) * 5)"
    by (simp_all add: safe_integer_def)
  from pagination_skip_limit [of ?h ?b "''-2''" "- 2" "''5''" 5 "- 2" 5] a s parseInt10_examples
  have "pagination (?h, ?b) = (None, (?h, ?b\<lparr>query := h_limit 5 (h_skip ((- 2 - 1) * 5) (query ?b))\<rparr>))"
    by simp
  then have "pagination (?h, ?b) = (None, (?h, ?b\<lparr>query := h_limit 5 (h_skip (- 15) (query ?b))\<rparr>))"
    by simp
  with a s parseInt10_examples show ?thesis by blast
qed

text \<open>
  Claim C2 as stated fails at \<^verbatim>\<open>page=0&limit=5\<close>: the parsed 0 is not passed
  through, the skip is 0 and not \<open>(0 - 1) * 5\<close>.
\<close>
theorem pagination_zero_counterexample:
  "to_string_arg (get_prop ([[(''page'', JStr ''0''), (''limit'', JStr ''5'')]] ! queryStr (constructor new_query 0)) ''page'') = Inr ''0''
   \<and> parseInt10 ''0'' = Some 0
   \<and> to_string_arg (get_prop ([[(''page'', JStr ''0''), (''limit'', JStr ''5'')]] ! queryStr (constructor new_query 0)) ''limit'') = Inr ''5''
   \<and> parseInt10 ''5'' = Some 5
   \<and> skip_count (query (snd (snd (pagination ([[(''page'', JStr ''0''), (''limit'', JStr ''5'')]], constructor new_query 0)))))
       = Some 0
   \<and> Some 0 \<noteq> Some ((0 - 1) * (5 :: int))"
  by (simp add: parseInt10_examples get_prop_def constructor_def to_string_arg_def pagination_def
      parse_param_def or_default_def h_skip_def h_limit_def new_query_def)

text \<open>
  Claim C4. A parameter that is absent or that \<^verbatim>\<open>parseInt\<close> turns into NaN gives
  its default: \<^verbatim>\<open>pagination()\<close> then takes page 1, or limit 10, or both, with the
  other value as it parses, and raises nothing; and a \<^verbatim>\<open>page\<close> that fails to
  parse, such as \<^verbatim>\<open>abc\<close>, gives the outcome and the builder of the same call with
  \<^verbatim>\<open>page\<close> absent.
\<close>
theorem pagination_defaults:
  "(unparseable v \<longrightarrow> parse_param v d = Inr d)
   \<and> (unparseable (get_prop (h ! queryStr b) ''page'') \<and> unparseable (get_prop (h ! queryStr b) ''limit'') \<longrightarrow>
        pagination (h, b) = (None, (h, b\<lparr>query := h_limit 10 (h_skip ((1 - 1) * 10) (query b))\<rparr>)))
   \<and> (unparseable (get_prop (h ! queryStr b) ''page'')
        \<and> parse_param (get_prop (h ! queryStr b) ''limit'') 10 = Inr l \<and> safe_integer l \<longrightarrow>
        pagination (h, b) = (None, (h, b\<lparr>query := h_limit l (h_skip ((1 - 1) * l) (query b))\<rparr>)))
   \<and> (parse_param (get_prop (h ! queryStr b) ''page'') 1 = Inr p \<and> safe_integer ((p - 1) * 10)
        \<and> unparseable (get_prop (h ! queryStr b) ''limit'') \<longrightarrow>
        pagination (h, b) = (None, (h, b\<lparr>query := h_limit 10 (h_skip ((p - 1) * 10) (query b))\<rparr>)))
   \<and> (unparseable (get_prop (h ! queryStr b) ''page'') \<and> get_prop (h' ! queryStr b) ''page'' = None
        \<and> get_prop (h ! queryStr b) ''limit'' = get_prop (h' ! queryStr b) ''limit'' \<longrightarrow>
        fst (pagination (h, b)) = fst (pagination (h', b))
        \<and> snd (snd (pagination (h, b))) = snd (snd (pagination (h', b))))
   \<and> unparseable None \<and> unparseable (Some (JStr ''abc''))"
proof -
  have u: "parse_param v d = Inr d" if "unparseable v" for v d
    using that by (auto simp: unparseable_def parse_param_def or_default_def split: sum.splits)
  have n: "unparseable None" "unparseable (Some (JStr ''abc''))"
    by (simp_all add: unparseable_def to_string_arg_def parseInt10_examples)
  have both: "pagination (h, b) = (None, (h, b\<lparr>query := h_limit 10 (h_skip ((1 - 1) * 10) (query b))\<rparr>))"
    if "unparseable (get_prop (h ! queryStr b) ''page'')" "unparseable (get_prop (h ! queryStr b) ''limit'')"
    using that by (simp add: pagination_def u)
  have pg: "pagination (h, b) = (None, (h, b\<lparr>query := h_limit l (h_skip ((1 - 1) * l) (query b))\<rparr>))"
    if "unparseable (get_prop (h ! queryStr b) ''page'')"
      "parse_param (get_prop (h ! queryStr b) ''limit'') 10 = Inr l"
    using that by (simp add: pagination_def u)
  have lm: "pagination (h, b) = (None, (h, b\<lparr>query := h_limit 10 (h_skip ((p - 1) * 10) (query b))\<rparr>))"
    if "parse_param (get_prop (h ! queryStr b) ''page'') 1 = Inr p"
      "unparseable (get_prop (h ! queryStr b) ''limit'')"
    using that by (simp add: pagination_def u)
  have same: "fst (pagination (h, b)) = fst (pagination (h', b))
        \<and> snd (snd (pagination (h, b))) = snd (snd (pagination (h', b)))"
    if "unparseable (get_prop (h ! queryStr b) ''page'')" "get_prop (h' ! queryStr b) ''page'' = None"
      "get_prop (h ! queryStr b) ''limit'' = get_prop (h' ! queryStr b) ''limit''"
  proof -
    have "parse_param (get_prop (h ! queryStr b) ''page'') 1 = Inr 1"
      "parse_param (get_prop (h' ! queryStr b) ''page'') 1 = Inr 1"
      using that(1,2) n(1) by (simp_all add: u)
    then show ?thesis
      using that(3) by (auto simp: pagination_def split: sum.splits)
  qed
  from u n both pg lm same show ?thesis by blast
qed

text \<open>
  \<^verbatim>\<open>page=abc\<close> against no parameters, \<^verbatim>\<open>page=abc&limit=5\<close> and
  \<^verbatim>\<open>page=3&limit=abc\<close>.
\<close>
theorem pagination_defaults_witness:
  "unparseable (Some (JStr ''abc'')) \<and> parse_param (Some (JStr ''abc'')) 1 = Inr 1
   \<and> unparseable (get_prop ([[(''page'', JStr ''abc'')]] ! queryStr (constructor new_query 0)) ''page'')
   \<and> unparseable (get_prop ([[(''page'', JStr ''abc'')]] ! queryStr (constructor new_query 0)) ''limit'')
   \<and> get_prop ([[]] ! queryStr (constructor new_query 0)) ''page'' = None
   \<and> get_prop ([[(''page'', JStr ''abc'')]] ! queryStr (constructor new_query 0)) ''limit''
       = get_prop ([[]] ! queryStr (constructor new_query 0)) ''limit''
   \<and> pagination ([[(''page'', JStr ''abc'')]], constructor new_query 0)
       = (None, ([[(''page'', JStr ''abc'')]],
            (constructor new_query 0)\<lparr>query := h_limit 10 (h_skip ((1 - 1) * 10) (query (constructor new_query 0)))\<rparr>))
   \<and> snd (snd (pagination ([[(''page'', JStr ''abc'')]], constructor new_query 0)))
       = snd (snd (pagination ([[]], constructor new_query 0)))
   \<and> unparseable (get_prop ([[(''page'', JStr ''abc''), (''limit'', JStr ''5'')]] ! queryStr (constructor new_query 0)) ''page'')
   \<and> parse_param (get_prop ([[(''page'', JStr ''abc''), (''limit'', JStr ''5'')]] ! queryStr (constructor new_query 0)) ''limit'') 10 = Inr 5
   \<and> safe_integer 5
   \<and> pagination ([[(''page'', JStr ''abc''), (''limit'', JStr ''5'')]], constructor new_query 0)
       = (None, ([[(''page'', JStr ''abc''), (''limit'', JStr ''5'')]],
            (constructor new_query 0)\<lparr>query := h_limit 5 (h_skip ((1 - 1) * 5) (query (constructor new_query 0)))\<rparr>))
   \<and> parse_param (get_prop ([[(''page'', JStr ''3''), (''limit'', JStr ''abc'')]] ! queryStr (constructor new_query 0)) ''page'') 1 = Inr 3
   \<and> safe_integer ((3 - 1) * 10)
   \<and> unparseable (get_prop ([[(''page'', JStr ''3''), (''limit'', JStr ''abc'')]] ! queryStr (constructor new_query 0)) ''limit'')
   \<and> pagination ([[(''page'', JStr ''3''), (''limit'', JStr ''abc'')]], constructor new_query 0)
       = (None, ([[(''page'', JStr ''3''), (''limit'', JStr ''abc'')]],
            (constructor new_query 0)\<lparr>query := h_limit 10 (h_skip ((3 - 1) * 10) (query (constructor new_query 0)))\<rparr>))"
proof -
  let ?h = "[[(''page'', JStr ''abc'')]]" and ?h' = "[[]] :: heap" and ?b = "constructor new_query 0"
  let ?h1 = "[[(''page'', JStr ''abc''), (''limit'', JStr ''5'')]]"
  let ?h2 = "[[(''page'', JStr ''3''), (''limit'', JStr ''abc'')]]"
  have a: "unparseable (get_prop (?h ! queryStr ?b) ''page'')"
    "unparseable (get_prop (?h ! queryStr ?b) ''limit'')"
    "get_prop (?h' ! queryStr ?b) ''page'' = None"
    "get_prop (?h ! queryStr ?b) ''limit'' = get_prop (?h' ! queryStr ?b) ''limit''"
    by (simp_all add: get_prop_def constructor_def unparseable_def to_string_arg_def parseInt10_examples)
  have b: "unparseable (get_prop (?h1 ! queryStr ?b) ''page'')"
    "parse_param (get_prop (?h1 ! queryStr ?b) ''limit'') 10 = Inr 5" "safe_integer 5"
    by (simp_all add: get_prop_def constructor_def unparseable_def to_string_arg_def parseInt10_examples
        parse_param_def or_default_def safe_integer_def)
  have c: "parse_param (get_prop (?h2 ! queryStr ?b) ''page'') 1 = Inr 3" "safe_integer ((3 - 1) * 10)"
    "unparseable (get_prop (?h2 ! queryStr ?b) ''limit'')"
    by (simp_all add: get_prop_def constructor_def unparseable_def to_string_arg_def parseInt10_examples
        parse_param_def or_default_def safe_integer_def)
  from a pagination_defaults [of "Some (JStr ''abc'')" 1 ?h ?b 5 3 ?h']
  have 1: "unparseable (Some (JStr ''abc''))" "parse_param (Some (JStr ''abc'')) 1 = Inr 1"
    "pagination (?h, ?b) = (None, (?h, ?b\<lparr>query := h_limit 10 (h_skip ((1 - 1) * 10) (query ?b))\<rparr>))"
    "snd (snd (pagination (?h, ?b))) = snd (snd (pagination (?h', ?b)))"
    by blast+
  from b pagination_defaults [of "Some (JStr ''abc'')" 1 ?h1 ?b 5 3 ?h']
  have 2: "pagination (?h1, ?b) = (None, (?h1, ?b\<lparr>query := h_limit 5 (h_skip ((1 - 1) * 5) (query ?b))\<rparr>))"
    by blast
  from c pagination_defaults [of "Some (JStr ''abc'')" 1 ?h2 ?b 5 3 ?h']
  have 3: "pagination (?h2, ?b) = (None, (?h2, ?b\<lparr>query := h_limit 10 (h_skip ((3 - 1) * 10) (query ?b))\<rparr>))"
    by blast
  from a b c 1 2 3 show ?thesis by blast
qed

text \<open>
  Claim C3. \<^verbatim>\<open>filter()\<close> returns without raising and narrows the handle by the
  rewritten object of the parameters that are left once \<^verbatim>\<open>sort\<close>,
  \<^verbatim>\<open>fields\<close>, \<^verbatim>\<open>q\<close>, \<^verbatim>\<open>limit\<close> and \<^verbatim>\<open>page\<close> are removed: none of
  the five is in it, every other key is, two sets of parameters that differ in those five
  only give the same builder, and when no key is left the predicate is the empty object.
\<close>
theorem filter_ignores_control_keys:
  "filter_api (h, b) =
     (None, (h @ [remaining (h ! queryStr b)],
             b\<lparr>query := h_find (rewrite_tree (JObj (remaining (h ! queryStr b)))) (query b)\<rparr>))
   \<and> (\<forall>k \<in> set removeFields. get_prop (remaining (h ! queryStr b)) k = None)
   \<and> (\<forall>k. k \<notin> set removeFields \<longrightarrow>
         get_prop (remaining (h ! queryStr b)) k = get_prop (h ! queryStr b) k)
   \<and> (remaining (h ! queryStr b) = remaining (h' ! queryStr b) \<longrightarrow>
         snd (snd (filter_api (h, b))) = snd (snd (filter_api (h', b))))
   \<and> (set (map fst (h ! queryStr b)) \<subseteq> set removeFields \<longrightarrow>
         filter_api (h, b) = (None, (h @ [[]], b\<lparr>query := h_find (JObj []) (query b)\<rparr>)))"
proof -
  have r: "filter_api (h, b) =
     (None, (h @ [remaining (h ! queryStr b)],
             b\<lparr>query := h_find (rewrite_tree (JObj (remaining (h ! queryStr b)))) (query b)\<rparr>))" for h
    unfolding remaining_def by (rule filter_api_result)
  have a: "\<forall>k \<in> set removeFields. get_prop (remaining (h ! queryStr b)) k = None"
    by (simp add: get_prop_def remaining_def map_of_removed)
  have k: "\<forall>k. k \<notin> set removeFields \<longrightarrow>
         get_prop (remaining (h ! queryStr b)) k = get_prop (h ! queryStr b) k"
    by (simp add: get_prop_def remaining_def map_of_kept)
  have e: "remaining (h ! queryStr b) = []" if "set (map fst (h ! queryStr b)) \<subseteq> set removeFields"
    using that unfolding remaining_def by (auto simp: filter_empty_conv)
  show ?thesis
    using r[of h] r[of h'] a k e by auto
qed

text \<open>
  \<^verbatim>\<open>sort=x&page=2&title=dev\<close> against \<^verbatim>\<open>title=dev\<close>, and
  \<^verbatim>\<open>sort=x&page=2\<close> alone.
\<close>
theorem filter_ignores_control_keys_witness:
  "remaining ([[(''sort'', JStr ''x''), (''page'', JStr ''2''), (''title'', JStr ''dev'')]] ! queryStr (constructor new_query 0))
     = remaining ([[(''title'', JStr ''dev'')]] ! queryStr (constructor new_query 0))
   \<and> snd (snd (filter_api ([[(''sort'', JStr ''x''), (''page'', JStr ''2''), (''title'', JStr ''dev'')]], constructor new_query 0)))
     = snd (snd (filter_api ([[(''title'', JStr ''dev'')]], constructor new_query 0)))
   \<and> set (map fst ([[(''sort'', JStr ''x''), (''page'', JStr ''2'')]] ! queryStr (constructor new_query 0)))
       \<subseteq> set removeFields
   \<and> filter_api ([[(''sort'', JStr ''x''), (''page'', JStr ''2'')]], constructor new_query 0)
     = (None, ([[(''sort'', JStr ''x''), (''page'', JStr ''2'')]] @ [[]],
          (constructor new_query 0)\<lparr>query := h_find (JObj []) (query (constructor new_query 0))\<rparr>))"
proof -
  let ?b = "constructor new_query 0"
  let ?h1 = "[[(''sort'', JStr ''x''), (''page'', JStr ''2''), (''title'', JStr ''dev'')]]"
  let ?h2 = "[[(''title'', JStr ''dev'')]]"
  let ?h3 = "[[(''sort'', JStr ''x''), (''page'', JStr ''2'')]]"
  have a: "remaining (?h1 ! queryStr ?b) = remaining (?h2 ! queryStr ?b)"
    by (simp add: remaining_def removeFields_def constructor_def)
  have c: "set (map fst (?h3 ! queryStr ?b)) \<subseteq> set removeFields"
    by (simp add: removeFields_def constructor_def)
  from filter_ignores_control_keys [of ?h1 ?b ?h2] a
  have 1: "snd (snd (filter_api (?h1, ?b))) = snd (snd (filter_api (?h2, ?b)))" by blast
  from filter_ignores_control_keys [of ?h3 ?b ?h3] c
  have 2: "filter_api (?h3, ?b) = (None, (?h3 @ [[]], ?b\<lparr>query := h_find (JObj []) (query ?b)\<rparr>))"
    by blast
  from a 1 c 2 show ?thesis by blast
qed

text \<open>
  Claim C1. When the parameters hold, under a field name \<open>f\<close>, an object with a
  comparison operator \<open>op\<close> among its keys (\<^verbatim>\<open>price[gte]=50\<close>),
  \<^verbatim>\<open>filter()\<close> returns without raising and narrows the handle by a predicate that
  has at \<open>f\<close> an object in which the operator, prefixed by the sigil as a whole
  (\<^verbatim>\<open>gte\<close> becomes \<^verbatim>\<open>$gte\<close>), holds the rewritten value, a value without
  the letters of the operators being unchanged, and in which the bare operator is no key;
  and no key of the predicate, at any depth, is one of \<^verbatim>\<open>gt\<close>, \<^verbatim>\<open>gte\<close>,
  \<^verbatim>\<open>lt\<close>, \<^verbatim>\<open>lte\<close>, \<^verbatim>\<open>in\<close>.
\<close>
theorem filter_comparison_operators:
  "distinct (map fst (h ! queryStr b)) \<and> f \<notin> set removeFields \<and> operator_free f
   \<and> get_prop (h ! queryStr b) f = Some (JObj ops) \<and> distinct (map fst ops)
   \<and> op \<in> set operators \<and> get_prop ops op = Some v \<longrightarrow>
     filter_api (h, b) =
       (None, (h @ [remaining (h ! queryStr b)],
               b\<lparr>query := h_find (JObj (rewrite_members [] (remaining (h ! queryStr b)))) (query b)\<rparr>))
     \<and> get_prop (rewrite_members [] (remaining (h ! queryStr b))) f = Some (JObj (rewrite_members [] ops))
     \<and> get_prop (rewrite_members [] ops) (CHR ''$'' # op) = Some (rewrite_tree v)
     \<and> get_prop (rewrite_members [] ops) op = None
     \<and> (\<forall>k \<in> set (members_keys (rewrite_members [] (remaining (h ! queryStr b)))). k \<notin> set operators)
     \<and> (\<forall>s. v = JStr s \<and> CHR ''g'' \<notin> set s \<and> CHR ''l'' \<notin> set s \<and> CHR ''i'' \<notin> set s
           \<longrightarrow> rewrite_tree v = v)"
proof (intro impI, elim conjE)
  let ?rem = "remaining (h ! queryStr b)"
  assume d: "distinct (map fst (h ! queryStr b))" and nf: "f \<notin> set removeFields"
    and of: "operator_free f" and g: "get_prop (h ! queryStr b) f = Some (JObj ops)"
    and dops: "distinct (map fst ops)" and op: "op \<in> set operators"
    and gv: "get_prop ops op = Some v"
  have r: "filter_api (h, b) =
       (None, (h @ [?rem], b\<lparr>query := h_find (JObj (rewrite_members [] ?rem)) (query b)\<rparr>))"
    using filter_api_result[of h b] by (simp add: remaining_def)
  have dr: "distinct (map fst ?rem)"
    using d by (simp add: remaining_def distinct_map_filter)
  have gr: "map_of ?rem f = Some (JObj ops)"
    using g nf by (simp add: remaining_def map_of_kept get_prop_def)
  have "map_of (rewrite_members [] ?rem) f = Some (rewrite_tree (JObj ops))"
    using dr gr of unfolding operator_free_def by (intro members_lookup) simp_all
  then have l: "get_prop (rewrite_members [] ?rem) f = Some (JObj (rewrite_members [] ops))"
    by (simp add: get_prop_def)
  have ro: "rewrite_str False op = CHR ''$'' # op"
    using op by (rule rewrite_str_operator)
  have "\<forall>kv \<in> set ops. rewrite_str False (fst kv) = rewrite_str False op \<longrightarrow> fst kv = op"
    using rewrite_to_sigil_operator[OF _ op] ro by simp
  with dops gv have "map_of (rewrite_members [] ops) (rewrite_str False op) = Some (rewrite_tree v)"
    unfolding get_prop_def by (intro members_lookup_key) simp_all
  then have lo: "get_prop (rewrite_members [] ops) (CHR ''$'' # op) = Some (rewrite_tree v)"
    using ro by (simp add: get_prop_def)
  have "\<forall>k \<in> set (members_keys (rewrite_members [] ops)). k \<notin> set operators"
    using rewritten_keys(1)[of "JObj ops"] by simp
  then have "op \<notin> fst ` set (rewrite_members [] ops)"
    using members_keys_top[of "rewrite_members [] ops"] op by blast
  then have no: "get_prop (rewrite_members [] ops) op = None"
    by (simp add: get_prop_def map_of_eq_None_iff)
  have k: "\<forall>k \<in> set (members_keys (rewrite_members [] ?rem)). k \<notin> set operators"
    using rewritten_keys(1)[of "JObj ?rem"] by simp
  have v: "\<forall>s. v = JStr s \<and> CHR ''g'' \<notin> set s \<and> CHR ''l'' \<notin> set s \<and> CHR ''i'' \<notin> set s
           \<longrightarrow> rewrite_tree v = v"
    by (auto simp: rewrite_str_unchanged)
  from r l lo no k v show "filter_api (h, b) =
       (None, (h @ [?rem], b\<lparr>query := h_find (JObj (rewrite_members [] ?rem)) (query b)\<rparr>))
     \<and> get_prop (rewrite_members [] ?rem) f = Some (JObj (rewrite_members [] ops))
     \<and> get_prop (rewrite_members [] ops) (CHR ''$'' # op) = Some (rewrite_tree v)
     \<and> get_prop (rewrite_members [] ops) op = None
     \<and> (\<forall>k \<in> set (members_keys (rewrite_members [] ?rem)). k \<notin> set operators)
     \<and> (\<forall>s. v = JStr s \<and> CHR ''g'' \<notin> set s \<and> CHR ''l'' \<notin> set s \<and> CHR ''i'' \<notin> set s
           \<longrightarrow> rewrite_tree v = v)"
    by blast
qed

text \<open>\<^verbatim>\<open>price[gte]=50&price[lt]=100&page=2\<close>.\<close>
theorem filter_comparison_operators_witness:
  "distinct (map fst ([[(''price'', JObj [(''gte'', JStr ''50''), (''lt'', JStr ''100'')]), (''page'', JStr ''2'')]]
       ! queryStr (constructor new_query 0)))
   \<and> ''price'' \<notin> set removeFields \<and> operator_free ''price''
   \<and> get_prop ([[(''price'', JObj [(''gte'', JStr ''50''), (''lt'', JStr ''100'')]), (''page'', JStr ''2'')]]
       ! queryStr (constructor new_query 0)) ''price''
       = Some (JObj [(''gte'', JStr ''50''), (''lt'', JStr ''100'')])
   \<and> distinct (map fst [(''gte'', JStr ''50''), (''lt'', JStr ''100'')])
   \<and> ''gte'' \<in> set operators
   \<and> get_prop [(''gte'', JStr ''50''), (''lt'', JStr ''100'')] ''gte'' = Some (JStr ''50'')
   \<and> ''gte'' \<in> set (members_keys [(''price'', JObj [(''gte'', JStr ''50''), (''lt'', JStr ''100'')])])
   \<and> get_prop (rewrite_members [] [(''gte'', JStr ''50''), (''lt'', JStr ''100'')]) ''$gte'' = Some (JStr ''50'')
   \<and> get_prop (rewrite_members [] [(''gte'', JStr ''50''), (''lt'', JStr ''100'')]) ''gte'' = None
   \<and> conditions (query (snd (snd (filter_api
         ([[(''price'', JObj [(''gte'', JStr ''50''), (''lt'', JStr ''100'')]), (''page'', JStr ''2'')]],
          constructor new_query 0)))))
       = [JObj [(''price'', JObj [(''$gte'', JStr ''50''), (''$lt'', JStr ''100'')])]]"
proof -
  let ?ops = "[(''gte'', JStr ''50''), (''lt'', JStr ''100'')]"
  let ?h = "[[(''price'', JObj ?ops), (''page'', JStr ''2'')]]"
  let ?b = "constructor new_query 0"
  have hy: "distinct (map fst (?h ! queryStr ?b))" "''price'' \<notin> set removeFields"
    "get_prop (?h ! queryStr ?b) ''price'' = Some (JObj ?ops)"
    "distinct (map fst ?ops)" "''gte'' \<in> set operators"
    "get_prop ?ops ''gte'' = Some (JStr ''50'')"
    "''gte'' \<in> set (members_keys [(''price'', JObj ?ops)])"
    by (simp_all add: constructor_def removeFields_def get_prop_def operators_def)
  have of: "operator_free ''price''"
    by (rule identifier_operator_free) (simp_all add: is_word_char_def operators_def)
  note t = filter_comparison_operators [of ?h ?b "''price''" ?ops "''gte''" "JStr ''50''"]
  from t hy of have g: "get_prop (rewrite_members [] ?ops) (CHR ''$'' # ''gte'') = Some (rewrite_tree (JStr ''50''))"
    and n: "get_prop (rewrite_members [] ?ops) ''gte'' = None"
    and v: "\<forall>s. JStr ''50'' = JStr s \<and> CHR ''g'' \<notin> set s \<and> CHR ''l'' \<notin> set s \<and> CHR ''i'' \<notin> set s
           \<longrightarrow> rewrite_tree (JStr ''50'') = JStr ''50''"
    and r: "filter_api (?h, ?b) =
       (None, (?h @ [remaining (?h ! queryStr ?b)],
               ?b\<lparr>query := h_find (JObj (rewrite_members [] (remaining (?h ! queryStr ?b)))) (query ?b)\<rparr>))"
    by blast+
  have v1: "rewrite_tree (JStr ''50'') = JStr ''50''"
    using v by simp
  have g': "get_prop (rewrite_members [] ?ops) ''$gte'' = Some (JStr ''50'')"
    using g v1 by simp
  have rm: "remaining (?h ! queryStr ?b) = [(''price'', JObj ?ops)]"
    by (simp add: remaining_def removeFields_def constructor_def)
  have "rewrite_members [] [(''price'', JObj ?ops)] = [(''price'', JObj [(''$gte'', JStr ''50''), (''$lt'', JStr ''100'')])]"
    by code_simp
  with r rm have c: "conditions (query (snd (snd (filter_api (?h, ?b)))))
       = [JObj [(''price'', JObj [(''$gte'', JStr ''50''), (''$lt'', JStr ''100'')])]]"
    by (simp add: h_find_def constructor_def new_query_def)
  from hy of g' n c show ?thesis by blast
qed

end
